theory Spec2Isabelle
  imports Complex_Main "HOL-Library.Word"
begin

section \<open>Common numerics\<close>

text \<open>
  Both programs are Tk applications around numpy arrays. A float64 value is modelled as a
  \<^typ>\<open>real\<close>, a one-dimensional array as a list and a two-dimensional array as a list of
  rows. The exceptions the modelled code can raise are values of \<open>py_error\<close>.
\<close>

datatype py_error = ValueError | IndexError | OSError | OverflowError | MemoryError

datatype thread = GenerateData | AutoSave | ReceiveDataTcp

text \<open>
  How a call of \<open>start_observation\<close> ends: with the error dialog and a return, with an
  exception that leaves the method, or with the session started.
\<close>

datatype start_result = Rejected | Raised py_error | Started

type_synonym vector = "real list"
type_synonym matrix = "real list list"

text \<open>\<open>np.linspace(start, stop, num)\<close>: \<open>num\<close> evenly spaced points, both ends included.\<close>

definition linspace :: "real \<Rightarrow> real \<Rightarrow> nat \<Rightarrow> real list" where
  "linspace start stop num =
     map (\<lambda>i. start + real i * ((stop - start) / real (num - 1))) [0..<num]"

text \<open>\<open>np.zeros((rows, cols))\<close>.\<close>

definition zeros :: "nat \<Rightarrow> nat \<Rightarrow> matrix" where
  "zeros rows cols = replicate rows (replicate cols 0)"

text \<open>
  The creation of a float64 array by numpy can fail. \<open>alloc k\<close> is the exception numpy raises
  when asked for an array of \<open>k\<close> elements (\<open>MemoryError\<close>, or its error for a size beyond
  the largest array), and \<open>None\<close> when the array is created; it is a parameter of the model.
\<close>

type_synonym allocator = "nat \<Rightarrow> py_error option"

definition np_linspace :: "allocator \<Rightarrow> real \<Rightarrow> real \<Rightarrow> nat \<Rightarrow> py_error + real list" where
  "np_linspace alloc start stop num =
     (case alloc num of Some e \<Rightarrow> Inl e | None \<Rightarrow> Inr (linspace start stop num))"

definition np_zeros :: "allocator \<Rightarrow> nat \<Rightarrow> nat \<Rightarrow> py_error + matrix" where
  "np_zeros alloc rows cols =
     (case alloc (rows * cols) of Some e \<Rightarrow> Inl e | None \<Rightarrow> Inr (zeros rows cols))"

text \<open>An allocator for the examples: every array of up to \<open>2 ^ 30\<close> elements is created.\<close>

definition roomy :: allocator where
  "roomy k = (if k \<le> 2 ^ 30 then None else Some MemoryError)"

text \<open>
  \<open>self.fs / 2\<close> on a Python integer: the quotient as a float, and \<open>OverflowError\<close> when it
  rounds to a value beyond the largest float, which is from \<open>2 ^ 1025 - 2 ^ 971\<close> on.
\<close>

definition half_as_float :: "int \<Rightarrow> py_error + real" where
  "half_as_float f =
     (if 2 ^ 1025 - 2 ^ 971 \<le> \<bar>f\<bar> then Inl OverflowError else Inr (real_of_int f / 2))"

text \<open>\<open>np.all(buffer == 0)\<close>.\<close>

definition all_zero :: "matrix \<Rightarrow> bool" where
  "all_zero buffer = list_all (list_all (\<lambda>x. x = 0)) buffer"

text \<open>Python's \<open>int(x)\<close> on a float: truncation towards zero.\<close>

definition py_int :: "real \<Rightarrow> int" where
  "py_int x = (if 0 \<le> x then \<lfloor>x\<rfloor> else \<lceil>x\<rceil>)"

text \<open>
  \<open>np.mean(a, axis=0)\<close> of an array of shape \<open>(len(a), cols)\<close>: the mean of every column.
\<close>

definition mean_axis0 :: "nat \<Rightarrow> matrix \<Rightarrow> vector" where
  "mean_axis0 cols a = map (\<lambda>j. (\<Sum>r\<leftarrow>a. r ! j) / real (length a)) [0..<cols]"

text \<open>
  \<open>np.argmax\<close>: one scan that keeps the position of the largest value seen so far and
  replaces it only by a strictly larger one; \<open>ValueError\<close> on an empty array.
\<close>

fun argmax_scan :: "real list \<Rightarrow> nat \<Rightarrow> nat \<Rightarrow> real \<Rightarrow> nat" where
  "argmax_scan [] i best_i best = best_i"
| "argmax_scan (x # xs) i best_i best =
     (if best < x then argmax_scan xs (i + 1) i x else argmax_scan xs (i + 1) best_i best)"

definition argmax :: "real list \<Rightarrow> py_error + nat" where
  "argmax a = (case a of [] \<Rightarrow> Inl ValueError | x # xs \<Rightarrow> Inr (argmax_scan xs 1 0 x))"

text \<open>
  The idiom both readers of a circular buffer use:
  \<^verbatim>\<open>if index == 0: buffer.copy() else: np.vstack((buffer[index:, :], buffer[:index, :]))\<close>
\<close>

definition ordered_rows :: "nat \<Rightarrow> 'a list \<Rightarrow> 'a list" where
  "ordered_rows index buffer = (if index = 0 then buffer else drop index buffer @ take index buffer)"

text \<open>
  What one run of the periodic \<open>update_plot\<close> does: nothing when the session is not
  running, only its rescheduling when there is nothing to draw, or a drawing.
\<close>

datatype 'a tick = Stopped | Waiting | Drawn 'a

text \<open>
  The file pair \<open>save_outputs\<close> writes: the FITS file (its name, the time axis of the primary
  HDU, the header fields \<open>FS\<close> and \<open>NFFT\<close>, the \<open>FREQ\<close> and the \<open>DATA\<close> HDU) and the PNG
  image (its name and the array it shows).
\<close>

datatype 'v saved_file =
    Fits string "real list" int int "real list" "'v list list"
  | Png string "'v list list"

text \<open>The attributes the two applications share.\<close>

record app_base =
  fs :: int
  n :: int
  running :: bool
  threads :: "thread list"
  freqs :: "real list"

section \<open>plot\_inno2.py: the synthetic source with three circular buffers\<close>

text \<open>
  The fields of \<open>SpectrogramApp\<close> that the acquisition core uses. Attributes that Python
  creates only in \<open>start_observation\<close> hold a default before the first start.
\<close>

record synth_app = app_base +
  live_duration :: real
  save_duration :: real
  avg_duration :: real
  data_interval :: real
  live_steps :: nat
  save_steps :: nat
  avg_steps :: nat
  live_buffer :: matrix
  save_buffer :: matrix
  avg_buffer :: matrix
  live_index :: nat
  save_index :: nat
  avg_index :: nat

definition init :: synth_app where
  "init = \<lparr>fs = 0, n = 0, running = False, threads = [], freqs = [],
     live_duration = 10, save_duration = 60, avg_duration = 30, data_interval = 2 / 100,
     live_steps = 0, save_steps = 0, avg_steps = 0,
     live_buffer = [], save_buffer = [], avg_buffer = [],
     live_index = 0, save_index = 0, avg_index = 0\<rparr>"

text \<open>The values \<open>__init__\<close> sets for the durations; nothing changes them later.\<close>

definition configured :: "synth_app \<Rightarrow> bool" where
  "configured s \<longleftrightarrow>
     live_duration s = 10 \<and> save_duration s = 60 \<and> avg_duration s = 30 \<and> data_interval s = 2 / 100"

text \<open>
  \<open>start_observation\<close>. The two entry arguments are the outcomes of \<open>int(entry.get())\<close> on
  the two entry fields: \<open>None\<close> when \<open>int\<close> raises. The assignments to \<open>self.fs\<close> and
  \<open>self.n\<close> made before the exception stay. The statements after the \<open>try\<close> block are not
  guarded: \<open>self.fs / 2\<close>, \<open>np.linspace\<close> and \<open>np.zeros\<close> can raise, and the exception leaves
  the method with the assignments made so far. The first \<open>update_plot\<close>, which the method
  calls last, is a run of \<open>update_plot\<close> below.
\<close>

definition start_observation ::
  "allocator \<Rightarrow> int option \<Rightarrow> int option \<Rightarrow> synth_app \<Rightarrow> start_result \<times> synth_app" where
  "start_observation alloc fs_entry n_entry s =
     (case fs_entry of
        None \<Rightarrow> (Rejected, s)
      | Some f \<Rightarrow>
          let s1 = s\<lparr>fs := f\<rparr> in
          (case n_entry of
             None \<Rightarrow> (Rejected, s1)
           | Some m \<Rightarrow>
               let s2 = s1\<lparr>n := m\<rparr> in
               if \<not> (0 < fs s2 \<and> 0 < n s2) then (Rejected, s2)
               else
                 (case half_as_float (fs s2) of
                    Inl e \<Rightarrow> (Raised e, s2)
                  | Inr half \<Rightarrow>
                      (case np_linspace alloc 0 half (nat (n s2)) of
                         Inl e \<Rightarrow> (Raised e, s2)
                       | Inr axis \<Rightarrow>
                           let live = nat (py_int (live_duration s2 / data_interval s2));
                               save = nat (py_int (save_duration s2 / data_interval s2));
                               avg = nat (py_int (avg_duration s2 / data_interval s2));
                               s3 = s2\<lparr>freqs := axis, running := True,
                                     live_steps := live, save_steps := save, avg_steps := avg\<rparr>
                           in (case np_zeros alloc live (nat (n s3)) of
                                 Inl e \<Rightarrow> (Raised e, s3)
                               | Inr b1 \<Rightarrow>
                                   (case np_zeros alloc save (nat (n s3)) of
                                      Inl e \<Rightarrow> (Raised e, s3\<lparr>live_buffer := b1\<rparr>)
                                    | Inr b2 \<Rightarrow>
                                        (case np_zeros alloc avg (nat (n s3)) of
                                           Inl e \<Rightarrow>
                                             (Raised e, s3\<lparr>live_buffer := b1, save_buffer := b2\<rparr>)
                                         | Inr b3 \<Rightarrow>
                                             (Started,
                                              s3\<lparr>live_buffer := b1, save_buffer := b2,
                                                 avg_buffer := b3,
                                                 live_index := 0, save_index := 0, avg_index := 0,
                                                 threads := threads s3 @ [GenerateData, AutoSave]\<rparr>))))))))"

text \<open>
  The body of \<open>generate_data\<close> under the lock, for one \<open>new_sample\<close> (a vector of \<open>n\<close> values
  drawn by \<open>np.random.rand\<close>), and the loop over the samples drawn while the session runs. Every reader takes the same lock, so
  the block is one step of the state.
\<close>

definition generate_data_step :: "vector \<Rightarrow> synth_app \<Rightarrow> synth_app" where
  "generate_data_step new_sample s =
     s\<lparr>live_buffer := (live_buffer s)[live_index s := new_sample],
       live_index := (live_index s + 1) mod live_steps s,
       save_buffer := (save_buffer s)[save_index s := new_sample],
       save_index := (save_index s + 1) mod save_steps s,
       avg_buffer := (avg_buffer s)[avg_index s := new_sample],
       avg_index := (avg_index s + 1) mod avg_steps s\<rparr>"

fun generate_data :: "vector list \<Rightarrow> synth_app \<Rightarrow> synth_app" where
  "generate_data [] s = s"
| "generate_data (new_sample # rest) s = generate_data rest (generate_data_step new_sample s)"

text \<open>
  \<open>update_plot\<close> takes the lock twice: once to copy the live window, and, after drawing,
  once more for the average window. \<open>s\<close> is the state at the first critical section and
  \<open>s'\<close> the state at the second. The result is the array handed to \<open>imshow\<close> and the peak
  frequency written to the label; \<open>Waiting\<close> leaves the label as it was.
\<close>

definition peak_freq :: "synth_app \<Rightarrow> py_error + real" where
  "peak_freq s =
     (let avg_data = ordered_rows (avg_index s) (avg_buffer s);
          avg_spectrum = mean_axis0 (nat (n s)) avg_data
      in case argmax avg_spectrum of
           Inl e \<Rightarrow> Inl e
         | Inr i \<Rightarrow> if i < length (freqs s) then Inr (freqs s ! i) else Inl IndexError)"

definition update_plot :: "synth_app \<Rightarrow> synth_app \<Rightarrow> (matrix \<times> (py_error + real)) tick" where
  "update_plot s s' =
     (if \<not> running s then Stopped
      else if all_zero (live_buffer s) then Waiting
      else Drawn (ordered_rows (live_index s) (live_buffer s), peak_freq s'))"

text \<open>
  \<open>save_outputs\<close>: the files written. \<open>base_name\<close> is the name built from the wall clock,
  \<open>Fs\<close> and \<open>N\<close>.
\<close>

definition save_outputs :: "string \<Rightarrow> synth_app \<Rightarrow> real saved_file list" where
  "save_outputs base_name s =
     (if all_zero (save_buffer s) then []
      else
        let data_60s = ordered_rows (save_index s) (save_buffer s);
            rel_times_60s = linspace (- save_duration s) 0 (save_steps s)
        in [Fits (base_name @ ''.fits'') rel_times_60s (fs s) (n s) (freqs s) data_60s,
            Png (base_name @ ''.png'') data_60s])"

section \<open>plot\_tcp.py: the socket source with one timestamped window\<close>

text \<open>
  A float32 is modelled by its bit pattern, which is all that \<open>np.frombuffer\<close> determines:
  four bytes of the stream in the byte order of the host, taken to be little-endian.
\<close>

type_synonym byte = "8 word"
type_synonym float32 = "32 word"
type_synonym sample = "float32 list"

definition le_float32 :: "byte \<Rightarrow> byte \<Rightarrow> byte \<Rightarrow> byte \<Rightarrow> float32" where
  "le_float32 b0 b1 b2 b3 =
     ucast b0 + push_bit 8 (ucast b1) + push_bit 16 (ucast b2) + push_bit 24 (ucast b3)"

text \<open>
  \<open>np.frombuffer(bytes, dtype=np.float32)\<close>: one value per four bytes, \<open>ValueError\<close> when the
  size is not a multiple of four.
\<close>

fun frombuffer :: "byte list \<Rightarrow> py_error + sample" where
  "frombuffer [] = Inr []"
| "frombuffer (b0 # b1 # b2 # b3 # rest) =
     (case frombuffer rest of Inl e \<Rightarrow> Inl e | Inr v \<Rightarrow> Inr (le_float32 b0 b1 b2 b3 # v))"
| "frombuffer _ = Inl ValueError"

record tcp_app = app_base +
  port :: int
  paused :: bool
  data :: "sample list"
  timestamps :: "real list"

definition init_tcp :: tcp_app where
  "init_tcp = \<lparr>fs = 0, n = 0, running = False, threads = [], freqs = [],
     port = 0, paused = False, data = [], timestamps = []\<rparr>"

text \<open>
  \<open>start_observation\<close> of plot\_tcp.py, with the outcome of \<open>int(entry.get())\<close> for the three
  entry fields. The assertion is on \<open>fs\<close> and \<open>n\<close> only. \<open>self.fs / 2\<close> and \<open>np.linspace\<close> come
  after the \<open>try\<close> block and can raise.
\<close>

definition start_observation_tcp ::
  "allocator \<Rightarrow> int option \<Rightarrow> int option \<Rightarrow> int option \<Rightarrow> tcp_app \<Rightarrow> start_result \<times> tcp_app" where
  "start_observation_tcp alloc fs_entry n_entry port_entry s =
     (case fs_entry of
        None \<Rightarrow> (Rejected, s)
      | Some f \<Rightarrow>
          let s1 = s\<lparr>fs := f\<rparr> in
          (case n_entry of
             None \<Rightarrow> (Rejected, s1)
           | Some m \<Rightarrow>
               let s2 = s1\<lparr>n := m\<rparr> in
               (case port_entry of
                  None \<Rightarrow> (Rejected, s2)
                | Some p \<Rightarrow>
                    let s3 = s2\<lparr>port := p\<rparr> in
                    if \<not> (0 < fs s3 \<and> 0 < n s3) then (Rejected, s3)
                    else
                      (case half_as_float (fs s3) of
                         Inl e \<Rightarrow> (Raised e, s3)
                       | Inr half \<Rightarrow>
                           (case np_linspace alloc 0 half (nat (n s3)) of
                              Inl e \<Rightarrow> (Raised e, s3)
                            | Inr axis \<Rightarrow>
                                (Started,
                                 s3\<lparr>freqs := axis,
                                    running := True, paused := False,
                                    data := [], timestamps := [],
                                    threads := threads s3 @ [ReceiveDataTcp, AutoSave]\<rparr>))))))"

text \<open>
  The eviction loop
  \<^verbatim>\<open>while self.timestamps and self.timestamps[0] < cutoff: self.timestamps.pop(0); self.data.pop(0)\<close>
  on the two parallel lists; \<open>pop\<close> on an empty list raises \<open>IndexError\<close>.
\<close>

fun evict :: "real \<Rightarrow> real list \<Rightarrow> 'a list \<Rightarrow> py_error + real list \<times> 'a list" where
  "evict cutoff [] ds = Inr ([], ds)"
| "evict cutoff (t # ts) ds =
     (if t < cutoff then
        (case ds of [] \<Rightarrow> Inl IndexError | d # ds' \<Rightarrow> evict cutoff ts ds')
      else Inr (t # ts, ds))"

text \<open>
  The block of \<open>receive_data_tcp\<close> under the lock, for one decoded sample: \<open>t\<close> is the first
  reading of \<open>time.time()\<close>, stored as the timestamp, and \<open>now\<close> the second, from which the
  cutoff is taken.
\<close>

definition push_sample :: "real \<Rightarrow> real \<Rightarrow> sample \<Rightarrow> tcp_app \<Rightarrow> py_error + tcp_app" where
  "push_sample t now smp s =
     (let cutoff = now - 10 in
      case evict cutoff (timestamps s @ [t]) (data s @ [smp]) of
        Inl e \<Rightarrow> Inl e
      | Inr (ts, ds) \<Rightarrow> Inr (s\<lparr>data := ds, timestamps := ts\<rparr>))"

text \<open>
  The inner loop \<^verbatim>\<open>while len(buffer) >= self.n * 4\<close>, for \<open>self.n = k\<close>. \<open>clk i\<close> is the value of
  the \<open>i\<close>-th call of \<open>time.time()\<close> in this thread and \<open>ticks\<close> counts the calls made. An
  exception ends the thread (\<open>Inl\<close>). With \<open>k = 0\<close> the loop does not end, which is the value
  \<open>None\<close>.
\<close>

partial_function (option) extract_records ::
  "(nat \<Rightarrow> real) \<Rightarrow> nat \<Rightarrow> byte list \<Rightarrow> nat \<Rightarrow> tcp_app \<Rightarrow> (py_error + byte list \<times> nat \<times> tcp_app) option" where
  "extract_records clk k buffer ticks s =
     (if k * 4 \<le> length buffer then
        (case frombuffer (take (k * 4) buffer) of
           Inl e \<Rightarrow> Some (Inl e)
         | Inr smp \<Rightarrow>
             (case push_sample (clk ticks) (clk (ticks + 1)) smp s of
                Inl e \<Rightarrow> Some (Inl e)
              | Inr s' \<Rightarrow> extract_records clk k (drop (k * 4) buffer) (ticks + 2) s'))
      else Some (Inr (buffer, ticks, s)))"

text \<open>
  The outer loop of \<open>receive_data_tcp\<close> over the outcomes of \<open>conn.recv(4096)\<close> in the
  iterations that run (session running, not paused): the bytes received, or an exception.
\<close>

datatype recv = Chunk "byte list" | Failed

fun receive_data_tcp ::
  "(nat \<Rightarrow> real) \<Rightarrow> nat \<Rightarrow> recv list \<Rightarrow> byte list \<Rightarrow> nat \<Rightarrow> tcp_app \<Rightarrow> (py_error + byte list \<times> nat \<times> tcp_app) option" where
  "receive_data_tcp clk k [] buffer ticks s = Some (Inr (buffer, ticks, s))"
| "receive_data_tcp clk k (Failed # rest) buffer ticks s = Some (Inl OSError)"
| "receive_data_tcp clk k (Chunk c # rest) buffer ticks s =
     (case extract_records clk k (buffer @ c) ticks s of
        None \<Rightarrow> None
      | Some (Inl e) \<Rightarrow> Some (Inl e)
      | Some (Inr (buffer', ticks', s')) \<Rightarrow> receive_data_tcp clk k rest buffer' ticks' s')"

text \<open>
  \<open>np.searchsorted(a, v)\<close> (side left): the binary search numpy runs, between \<open>lo\<close> and \<open>hi\<close>.
\<close>

function bisect_left :: "real list \<Rightarrow> real \<Rightarrow> nat \<Rightarrow> nat \<Rightarrow> nat" where
  "bisect_left a v lo hi =
     (if lo < hi then
        (let mid = lo + (hi - lo) div 2 in
         if a ! mid < v then bisect_left a v (mid + 1) hi else bisect_left a v lo mid)
      else lo)"
  by pat_completeness auto
termination
  by (relation "measure (\<lambda>(a, v, lo, hi). hi - lo)") auto

declare bisect_left.simps [simp del]

definition searchsorted :: "real list \<Rightarrow> real \<Rightarrow> nat" where
  "searchsorted a v = bisect_left a v 0 (length a)"

text \<open>
  The loop of \<open>update_plot\<close> over \<open>zip(rel_times, data_array)\<close> that fills \<open>aligned_data\<close>.
\<close>

fun align :: "real list \<Rightarrow> nat \<Rightarrow> (real \<times> 'r) list \<Rightarrow> 'r list \<Rightarrow> 'r list" where
  "align full_times num_steps [] aligned_data = aligned_data"
| "align full_times num_steps ((t, d) # rest) aligned_data =
     (let idx = searchsorted full_times t
      in align full_times num_steps rest
           (if idx < num_steps then aligned_data[idx := d] else aligned_data))"

text \<open>
  \<open>update_plot\<close> of plot\_tcp.py, up to the array handed to \<open>imshow\<close>. \<open>aligned_data\<close> is a
  float64 array: \<open>nan\<close> is its not-a-number and \<open>widen\<close> the conversion of a float32 that the
  assignment of a row makes.
\<close>

definition update_plot_tcp :: "'v \<Rightarrow> (float32 \<Rightarrow> 'v) \<Rightarrow> real \<Rightarrow> tcp_app \<Rightarrow> 'v list list tick" where
  "update_plot_tcp nan widen current_time s =
     (if \<not> running s then Stopped
      else if paused s then Waiting
      else if length (data s) = 0 then Waiting
      else
        let rel_times = map (\<lambda>t. t - current_time) (timestamps s);
            data_array = map (map widen) (data s);
            duration = 10;
            num_steps = nat (py_int (duration / (5 / 100)));
            full_times = linspace (- 10) 0 num_steps;
            aligned_data = replicate num_steps (replicate (nat (n s)) nan)
        in Drawn (align full_times num_steps (zip rel_times data_array) aligned_data))"

text \<open>\<open>save_outputs\<close> of plot\_tcp.py: the files written, or the exception raised.\<close>

definition save_outputs_tcp :: "string \<Rightarrow> tcp_app \<Rightarrow> py_error + float32 saved_file list" where
  "save_outputs_tcp base_name s =
     (if data s = [] then Inr []
      else
        (case timestamps s of
           [] \<Rightarrow> Inl IndexError
         | _ \<Rightarrow>
             let rel_times = map (\<lambda>t. t - last (timestamps s)) (timestamps s);
                 data_array = data s
             in Inr [Fits (base_name @ ''.fits'') rel_times (fs s) (n s) (freqs s) data_array,
                     Png (base_name @ ''.png'') data_array]))"

text \<open>
  A run of the locked block over the samples the receiver decodes, each with the two clock
  readings of its push; an exception ends the run.
\<close>

fun push_samples :: "(real \<times> real \<times> sample) list \<Rightarrow> tcp_app \<Rightarrow> py_error + tcp_app" where
  "push_samples [] s = Inr s"
| "push_samples ((t, now, smp) # rest) s =
     (case push_sample t now smp s of Inl e \<Rightarrow> Inl e | Inr s' \<Rightarrow> push_samples rest s')"

text \<open>The clock readings of consecutive pushes, the first two being readings \<open>ticks\<close> and \<open>ticks + 1\<close>.\<close>

fun clocked :: "(nat \<Rightarrow> real) \<Rightarrow> nat \<Rightarrow> sample list \<Rightarrow> (real \<times> real \<times> sample) list" where
  "clocked clk ticks [] = []"
| "clocked clk ticks (smp # rest) = (clk ticks, clk (ticks + 1), smp) # clocked clk (ticks + 2) rest"

text \<open>
  The wire format as the specification words it: the stream is a sequence of records of \<open>4 * k\<close>
  bytes, record \<open>i\<close> being the bytes from \<open>i * 4 * k\<close> on, and value \<open>j\<close> of a record the
  little-endian float32 in its bytes \<open>4 * j\<close> to \<open>4 * j + 3\<close>.
\<close>

definition stream_records :: "nat \<Rightarrow> byte list \<Rightarrow> byte list list" where
  "stream_records k stream =
     map (\<lambda>i. take (4 * k) (drop (i * (4 * k)) stream)) [0..<length stream div (4 * k)]"

definition record_values :: "nat \<Rightarrow> byte list \<Rightarrow> sample" where
  "record_values k r =
     map (\<lambda>j. le_float32 (r ! (4 * j)) (r ! (4 * j + 1)) (r ! (4 * j + 2)) (r ! (4 * j + 3))) [0..<k]"

section \<open>Circular buffers in chronological order\<close>


lemma ordered_rows_eq: "ordered_rows i b = drop i b @ take i b"
  by (simp add: ordered_rows_def)

lemma ordered_rows_length: "length (ordered_rows i b) = length b"
  by (auto simp: ordered_rows_def)

lemma ordered_rows_put:
  assumes "i < length b"
  shows "ordered_rows ((i + 1) mod length b) (b[i := x]) = tl (ordered_rows i b) @ [x]"
proof (cases "i + 1 = length b")
  case True
  then have "b[i := x] = take i b @ [x]"
    using assms by (simp add: upd_conv_take_nth_drop)
  moreover have "drop i b = [b ! i]"
    using True assms Cons_nth_drop_Suc [of i b] by simp
  then have "tl (drop i b @ take i b) = take i b"
    by simp
  ultimately show ?thesis
    using True by (simp add: ordered_rows_eq)
next
  case False
  with assms have lt: "i + 1 < length b" by simp
  have "drop i b = b ! i # drop (i + 1) b"
    using assms by (simp add: Cons_nth_drop_Suc)
  then have "tl (drop i b @ take i b) = drop (i + 1) b @ take i b"
    by simp
  moreover have "take (i + 1) (b[i := x]) = take i b @ [x]"
    using assms by (simp add: take_Suc_conv_app_nth)
  ultimately show ?thesis
    using lt by (simp add: ordered_rows_eq)
qed

lemma drop_tl_snoc:
  assumes "ys \<noteq> []"
  shows "drop k (tl ys @ x # xs) = drop (Suc k) (ys @ x # xs)"
  using assms by (cases ys) simp_all

lemma live_window_history:
  assumes "length (live_buffer s) = live_steps s" "live_index s < live_steps s"
  shows "ordered_rows (live_index (generate_data xs s)) (live_buffer (generate_data xs s))
           = drop (length xs) (ordered_rows (live_index s) (live_buffer s) @ xs)
         \<and> length (live_buffer (generate_data xs s)) = live_steps s
         \<and> live_index (generate_data xs s) < live_steps s
         \<and> live_steps (generate_data xs s) = live_steps s"
  using assms
proof (induction xs arbitrary: s)
  case Nil
  then show ?case by simp
next
  case (Cons x xs)
  let ?t = "generate_data_step x s"
  have len: "length (live_buffer ?t) = live_steps ?t" and idx: "live_index ?t < live_steps ?t"
    and st: "live_steps ?t = live_steps s"
    using Cons.prems by (simp_all add: generate_data_step_def)
  have put: "ordered_rows (live_index ?t) (live_buffer ?t) = tl (ordered_rows (live_index s) (live_buffer s)) @ [x]"
    using Cons.prems ordered_rows_put [of "live_index s" "live_buffer s" x]
    by (simp add: generate_data_step_def)
  have ne: "ordered_rows (live_index s) (live_buffer s) \<noteq> []"
    using Cons.prems ordered_rows_length [of "live_index s" "live_buffer s"] by auto
  show ?case
    using Cons.IH [OF len idx] put st drop_tl_snoc [OF ne, of "length xs" x xs] by simp
qed

lemma live_index_count:
  assumes "live_index s < live_steps s"
  shows "live_index (generate_data xs s) = (live_index s + length xs) mod live_steps s"
  using assms
proof (induction xs arbitrary: s)
  case Nil
  then show ?case by simp
next
  case (Cons x xs)
  have "live_index (generate_data_step x s) < live_steps (generate_data_step x s)"
    using Cons.prems by (simp add: generate_data_step_def)
  from Cons.IH [OF this] show ?case
    by (simp add: generate_data_step_def mod_simps)
qed

lemma save_window_history:
  assumes "length (save_buffer s) = save_steps s" "save_index s < save_steps s"
  shows "ordered_rows (save_index (generate_data xs s)) (save_buffer (generate_data xs s))
           = drop (length xs) (ordered_rows (save_index s) (save_buffer s) @ xs)
         \<and> length (save_buffer (generate_data xs s)) = save_steps s
         \<and> save_index (generate_data xs s) < save_steps s
         \<and> save_steps (generate_data xs s) = save_steps s"
  using assms
proof (induction xs arbitrary: s)
  case Nil
  then show ?case by simp
next
  case (Cons x xs)
  let ?t = "generate_data_step x s"
  have len: "length (save_buffer ?t) = save_steps ?t" and idx: "save_index ?t < save_steps ?t"
    and st: "save_steps ?t = save_steps s"
    using Cons.prems by (simp_all add: generate_data_step_def)
  have put: "ordered_rows (save_index ?t) (save_buffer ?t) = tl (ordered_rows (save_index s) (save_buffer s)) @ [x]"
    using Cons.prems ordered_rows_put [of "save_index s" "save_buffer s" x]
    by (simp add: generate_data_step_def)
  have ne: "ordered_rows (save_index s) (save_buffer s) \<noteq> []"
    using Cons.prems ordered_rows_length [of "save_index s" "save_buffer s"] by auto
  show ?case
    using Cons.IH [OF len idx] put st drop_tl_snoc [OF ne, of "length xs" x xs] by simp
qed

lemma save_index_count:
  assumes "save_index s < save_steps s"
  shows "save_index (generate_data xs s) = (save_index s + length xs) mod save_steps s"
  using assms
proof (induction xs arbitrary: s)
  case Nil
  then show ?case by simp
next
  case (Cons x xs)
  have "save_index (generate_data_step x s) < save_steps (generate_data_step x s)"
    using Cons.prems by (simp add: generate_data_step_def)
  from Cons.IH [OF this] show ?case
    by (simp add: generate_data_step_def mod_simps)
qed

lemma avg_window_history:
  assumes "length (avg_buffer s) = avg_steps s" "avg_index s < avg_steps s"
  shows "ordered_rows (avg_index (generate_data xs s)) (avg_buffer (generate_data xs s))
           = drop (length xs) (ordered_rows (avg_index s) (avg_buffer s) @ xs)
         \<and> length (avg_buffer (generate_data xs s)) = avg_steps s
         \<and> avg_index (generate_data xs s) < avg_steps s
         \<and> avg_steps (generate_data xs s) = avg_steps s"
  using assms
proof (induction xs arbitrary: s)
  case Nil
  then show ?case by simp
next
  case (Cons x xs)
  let ?t = "generate_data_step x s"
  have len: "length (avg_buffer ?t) = avg_steps ?t" and idx: "avg_index ?t < avg_steps ?t"
    and st: "avg_steps ?t = avg_steps s"
    using Cons.prems by (simp_all add: generate_data_step_def)
  have put: "ordered_rows (avg_index ?t) (avg_buffer ?t) = tl (ordered_rows (avg_index s) (avg_buffer s)) @ [x]"
    using Cons.prems ordered_rows_put [of "avg_index s" "avg_buffer s" x]
    by (simp add: generate_data_step_def)
  have ne: "ordered_rows (avg_index s) (avg_buffer s) \<noteq> []"
    using Cons.prems ordered_rows_length [of "avg_index s" "avg_buffer s"] by auto
  show ?case
    using Cons.IH [OF len idx] put st drop_tl_snoc [OF ne, of "length xs" x xs] by simp
qed

lemma avg_index_count:
  assumes "avg_index s < avg_steps s"
  shows "avg_index (generate_data xs s) = (avg_index s + length xs) mod avg_steps s"
  using assms
proof (induction xs arbitrary: s)
  case Nil
  then show ?case by simp
next
  case (Cons x xs)
  have "avg_index (generate_data_step x s) < avg_steps (generate_data_step x s)"
    using Cons.prems by (simp add: generate_data_step_def)
  from Cons.IH [OF this] show ?case
    by (simp add: generate_data_step_def mod_simps)
qed

lemma start_observation_started:
  assumes "configured s0" "0 < f" "0 < m" "f < 2 ^ 1025 - 2 ^ 971"
    and "alloc (nat m) = None" "alloc (500 * nat m) = None" "alloc (3000 * nat m) = None"
      "alloc (1500 * nat m) = None"
  shows "start_observation alloc (Some f) (Some m) s0 =
     (Started, s0\<lparr>fs := f, n := m, freqs := linspace 0 (real_of_int f / 2) (nat m),
        running := True, live_steps := 500, save_steps := 3000, avg_steps := 1500,
        live_buffer := zeros 500 (nat m), save_buffer := zeros 3000 (nat m),
        avg_buffer := zeros 1500 (nat m), live_index := 0, save_index := 0, avg_index := 0,
        threads := threads s0 @ [GenerateData, AutoSave]\<rparr>)"
proof -
  from assms(1) have d: "live_duration s0 = 10" "save_duration s0 = 60" "avg_duration s0 = 30"
    "data_interval s0 = 2 / 100"
    by (simp_all add: configured_def)
  have h: "half_as_float f = Inr (real_of_int f / 2)"
    using assms(2,4) by (simp add: half_as_float_def)
  show ?thesis
    using assms(2,3,5-)
    by (simp add: start_observation_def py_int_def Let_def d h np_linspace_def np_zeros_def)
qed

lemma small_is_roomy: "k \<le> 300000 \<Longrightarrow> roomy k = None"
  by (simp add: roomy_def)

lemma start_observation_roomy:
  assumes "configured s0" "0 < f" "0 < m" "f \<le> 100" "m \<le> 100"
  shows "start_observation roomy (Some f) (Some m) s0 =
     (Started, s0\<lparr>fs := f, n := m, freqs := linspace 0 (real_of_int f / 2) (nat m),
        running := True, live_steps := 500, save_steps := 3000, avg_steps := 1500,
        live_buffer := zeros 500 (nat m), save_buffer := zeros 3000 (nat m),
        avg_buffer := zeros 1500 (nat m), live_index := 0, save_index := 0, avg_index := 0,
        threads := threads s0 @ [GenerateData, AutoSave]\<rparr>)"
proof -
  have "f < 2 ^ 1025 - 2 ^ 971"
    using assms(4) by simp
  moreover have "roomy (nat m) = None" "roomy (500 * nat m) = None" "roomy (3000 * nat m) = None"
    "roomy (1500 * nat m) = None"
    using assms(5) by (simp_all add: small_is_roomy)
  ultimately show ?thesis
    by (rule start_observation_started [OF assms(1,2,3)])
qed

lemma start_observation_cases:
  assumes "configured s0" "start_observation alloc fe ne s0 = (Started, s1)"
  shows "\<exists>f m. fe = Some f \<and> ne = Some m \<and> 0 < f \<and> 0 < m \<and> f < 2 ^ 1025 - 2 ^ 971
    \<and> alloc (nat m) = None \<and> alloc (500 * nat m) = None \<and> alloc (3000 * nat m) = None
    \<and> alloc (1500 * nat m) = None"
proof -
  from assms(1) have d: "live_duration s0 = 10" "save_duration s0 = 60" "avg_duration s0 = 30"
    "data_interval s0 = 2 / 100"
    by (simp_all add: configured_def)
  from assms(2) show ?thesis
    by (simp add: start_observation_def Let_def d py_int_def half_as_float_def np_linspace_def
        np_zeros_def split: option.splits if_splits sum.splits)
qed

lemma last_rows:
  "drop (length xs) (replicate c z @ xs) =
     (if c \<le> length xs then drop (length xs - c) xs else replicate (c - length xs) z @ xs)"
  by auto

lemma started_state:
  assumes "configured s0" "start_observation alloc fe ne s0 = (Started, s1)"
  shows "0 < n s1 \<and> running s1
    \<and> live_steps s1 = 500 \<and> save_steps s1 = 3000 \<and> avg_steps s1 = 1500
    \<and> live_buffer s1 = replicate 500 (replicate (nat (n s1)) 0)
    \<and> save_buffer s1 = replicate 3000 (replicate (nat (n s1)) 0)
    \<and> avg_buffer s1 = replicate 1500 (replicate (nat (n s1)) 0)
    \<and> live_index s1 = 0 \<and> save_index s1 = 0 \<and> avg_index s1 = 0"
proof -
  from start_observation_cases [OF assms] obtain f m
    where fm: "fe = Some f" "ne = Some m" "0 < f" "0 < m" "f < 2 ^ 1025 - 2 ^ 971"
      "alloc (nat m) = None" "alloc (500 * nat m) = None" "alloc (3000 * nat m) = None"
      "alloc (1500 * nat m) = None"
    by blast
  from assms(2) show ?thesis
    unfolding fm(1,2) start_observation_started [OF assms(1) fm(3-)]
    using fm(3,4) by (auto simp: zeros_def)
qed

lemma split_at_length:
  assumes "a @ b = c @ d" "length b = length d"
  shows "b = d"
  using assms by (metis append_eq_append_conv)

text \<open>
  Claim C1, as the code has it. The readers of a circular buffer (\<open>update_plot\<close> for the
  live window, \<open>save_outputs\<close> for the save window) always return \<open>buffer[idx:] ++ buffer[:idx]\<close>,
  all \<open>steps\<close> rows of it. After the pushes \<open>xs\<close> of a session this is the last \<open>steps\<close>
  rows of the initial zero rows followed by \<open>xs\<close> in push order: once \<open>steps\<close> or more samples
  were pushed, the last \<open>steps\<close> samples, oldest first; before that, \<open>buffer[:idx]\<close> (which is
  \<open>xs\<close>) preceded by the \<open>steps - length xs\<close> zero rows never written.
\<close>

theorem ring_snapshot_chronological:
  assumes "configured s0" and "start_observation alloc fs_entry n_entry s0 = (Started, s1)"
  shows "let s = generate_data xs s1;
             z = replicate (nat (n s1)) 0;
             data_to_plot = ordered_rows (live_index s) (live_buffer s);
             data_60s = ordered_rows (save_index s) (save_buffer s)
         in data_to_plot = drop (live_index s) (live_buffer s) @ take (live_index s) (live_buffer s)
          \<and> data_60s = drop (save_index s) (save_buffer s) @ take (save_index s) (save_buffer s)
          \<and> data_to_plot = drop (length xs) (replicate 500 z @ xs)
          \<and> data_60s = drop (length xs) (replicate 3000 z @ xs)
          \<and> (500 \<le> length xs \<longrightarrow> data_to_plot = drop (length xs - 500) xs)
          \<and> (length xs < 500 \<longrightarrow>
                take (live_index s) (live_buffer s) = xs
                \<and> data_to_plot = replicate (500 - length xs) z @ xs)
          \<and> (3000 \<le> length xs \<longrightarrow> data_60s = drop (length xs - 3000) xs)
          \<and> (length xs < 3000 \<longrightarrow>
                take (save_index s) (save_buffer s) = xs
                \<and> data_60s = replicate (3000 - length xs) z @ xs)"
proof -
  define s where "s = generate_data xs s1"
  define z :: vector where "z = replicate (nat (n s1)) 0"
  note st = started_state [OF assms]
  have live0: "length (live_buffer s1) = live_steps s1" "live_index s1 < live_steps s1"
    and save0: "length (save_buffer s1) = save_steps s1" "save_index s1 < save_steps s1"
    using st by simp_all
  have live: "ordered_rows (live_index s) (live_buffer s) = drop (length xs) (replicate 500 z @ xs)"
    using live_window_history [OF live0, of xs] st by (simp add: s_def z_def ordered_rows_def)
  have save: "ordered_rows (save_index s) (save_buffer s) = drop (length xs) (replicate 3000 z @ xs)"
    using save_window_history [OF save0, of xs] st by (simp add: s_def z_def ordered_rows_def)
  have li: "live_index s = length xs mod 500"
    using live_index_count [OF live0(2), of xs] st by (simp add: s_def)
  have si: "save_index s = length xs mod 3000"
    using save_index_count [OF save0(2), of xs] st by (simp add: s_def)
  have llen: "length (live_buffer s) = 500"
    using live_window_history [OF live0, of xs] st by (simp add: s_def)
  have slen: "length (save_buffer s) = 3000"
    using save_window_history [OF save0, of xs] st by (simp add: s_def)
  have lpre: "take (live_index s) (live_buffer s) = xs" if "length xs < 500"
  proof -
    have "drop (live_index s) (live_buffer s) @ take (live_index s) (live_buffer s)
            = replicate (500 - length xs) z @ xs"
      using live that by (simp add: ordered_rows_eq)
    moreover have "length (take (live_index s) (live_buffer s)) = length xs"
      using li llen that by simp
    ultimately show ?thesis by (rule split_at_length)
  qed
  have spre: "take (save_index s) (save_buffer s) = xs" if "length xs < 3000"
  proof -
    have "drop (save_index s) (save_buffer s) @ take (save_index s) (save_buffer s)
            = replicate (3000 - length xs) z @ xs"
      using save that by (simp add: ordered_rows_eq)
    moreover have "length (take (save_index s) (save_buffer s)) = length xs"
      using si slen that by simp
    ultimately show ?thesis by (rule split_at_length)
  qed
  show ?thesis
    unfolding Let_def s_def [symmetric] z_def [symmetric]
    using live save lpre spre by (simp add: ordered_rows_eq [symmetric])
qed

theorem ring_snapshot_chronological_witness:
  "configured init
   \<and> fst (start_observation roomy (Some 8) (Some 1) init) = Started
   \<and> (let s = generate_data [[5]] (snd (start_observation roomy (Some 8) (Some 1) init))
      in ordered_rows (live_index s) (live_buffer s) = replicate 499 [0] @ [[5]]
       \<and> take (live_index s) (live_buffer s) = [[5]])"
proof -
  have c: "configured init"
    by (simp add: configured_def init_def)
  have f: "fst (start_observation roomy (Some 8) (Some 1) init) = Started"
    by (simp add: start_observation_roomy [OF c])
  then have e: "start_observation roomy (Some 8) (Some 1) init
      = (Started, snd (start_observation roomy (Some 8) (Some 1) init))"
    by (metis prod.collapse)
  have n1: "n (snd (start_observation roomy (Some 8) (Some 1) init)) = 1"
    by (simp add: start_observation_roomy [OF c])
  have len: "length [[5::real]] < 500"
    by simp
  define s where "s = generate_data [[5]] (snd (start_observation roomy (Some 8) (Some 1) init))"
  have "take (live_index s) (live_buffer s) = [[5]]
      \<and> ordered_rows (live_index s) (live_buffer s)
          = replicate (500 - length [[5::real]])
              (replicate (nat (n (snd (start_observation roomy (Some 8) (Some 1) init)))) 0) @ [[5]]"
    using ring_snapshot_chronological [OF c e, of "[[5]]"] len unfolding Let_def s_def by blast
  then have "ordered_rows (live_index s) (live_buffer s) = replicate 499 [0] @ [[5]]
      \<and> take (live_index s) (live_buffer s) = [[5]]"
    by (simp add: n1)
  then show ?thesis
    using c f unfolding Let_def s_def by blast
qed

text \<open>
  Claim C1 as stated fails before the first wrap: after one push into the live window of 500
  rows, the rows handed to the plot are not \<open>buffer[:idx]\<close>.
\<close>

theorem ring_snapshot_before_wrap_counterexample:
  "\<not> (let s = generate_data [[5]] (snd (start_observation roomy (Some 8) (Some 1) init))
      in ordered_rows (live_index s) (live_buffer s) = take (live_index s) (live_buffer s))"
proof -
  define s where "s = generate_data [[5]] (snd (start_observation roomy (Some 8) (Some 1) init))"
  have c: "configured init"
    by (simp add: configured_def init_def)
  have e: "start_observation roomy (Some 8) (Some 1) init
      = (Started, snd (start_observation roomy (Some 8) (Some 1) init))"
    by (simp add: start_observation_roomy [OF c])
  note st = started_state [OF c e]
  have live0: "length (live_buffer (snd (start_observation roomy (Some 8) (Some 1) init)))
      = live_steps (snd (start_observation roomy (Some 8) (Some 1) init))"
    "live_index (snd (start_observation roomy (Some 8) (Some 1) init))
      < live_steps (snd (start_observation roomy (Some 8) (Some 1) init))"
    using st by simp_all
  have "length (live_buffer s) = 500"
    using live_window_history [OF live0, of "[[5]]"] st by (simp add: s_def)
  then have "length (ordered_rows (live_index s) (live_buffer s)) = 500"
    by (simp add: ordered_rows_length)
  moreover have "live_index s = 1"
    using live_index_count [OF live0(2), of "[[5]]"] st by (simp add: s_def)
  then have "length (take (live_index s) (live_buffer s)) \<le> 1"
    by simp
  ultimately have "ordered_rows (live_index s) (live_buffer s) \<noteq> take (live_index s) (live_buffer s)"
    by auto
  then show ?thesis
    by (simp add: s_def Let_def)
qed


section \<open>The timestamped window of plot\_tcp.py\<close>

lemma evict_parallel:
  assumes "length ds = length ts"
  shows "evict cutoff ts ds =
     Inr (dropWhile (\<lambda>t. t < cutoff) ts, drop (length (takeWhile (\<lambda>t. t < cutoff) ts)) ds)"
  using assms
proof (induction ts arbitrary: ds)
  case Nil
  then show ?case by simp
next
  case (Cons t ts)
  then obtain d ds' where ds: "ds = d # ds'" "length ds' = length ts"
    by (cases ds) auto
  show ?case
    using Cons.IH [OF ds(2)] by (simp add: ds(1))
qed

lemma dropWhile_sorted_bound:
  assumes "sorted ts"
  shows "\<forall>u \<in> set (dropWhile (\<lambda>t. t < cutoff) ts). cutoff \<le> (u::real)"
  using assms
proof (induction ts)
  case Nil
  then show ?case by simp
next
  case (Cons t ts)
  then show ?case by (auto simp: not_less)
qed

lemma push_sample_parallel:
  assumes "length (data s) = length (timestamps s)"
  shows "push_sample t now smp s =
     Inr (s\<lparr>data := drop (length (takeWhile (\<lambda>u. u < now - 10) (timestamps s @ [t]))) (data s @ [smp]),
            timestamps := dropWhile (\<lambda>u. u < now - 10) (timestamps s @ [t])\<rparr>)"
  using assms evict_parallel [of "data s @ [smp]" "timestamps s @ [t]" "now - 10"]
  by (simp add: push_sample_def)

lemma drop_append_le: "k \<le> length a \<Longrightarrow> drop k a @ b = drop k (a @ b)"
  by simp

lemma push_samples_invariant:
  assumes "sorted (timestamps s @ map fst evs)" "length (data s) = length (timestamps s)"
  shows "\<exists>s'. push_samples evs s = Inr s'
     \<and> length (data s') = length (timestamps s')
     \<and> (\<exists>j. timestamps s' = drop j (timestamps s @ map fst evs))
     \<and> (evs \<noteq> [] \<longrightarrow> (\<forall>u \<in> set (timestamps s'). fst (snd (last evs)) - 10 \<le> u))"
  using assms
proof (induction evs arbitrary: s)
  case Nil
  then show ?case by (auto intro: exI [of _ 0])
next
  case (Cons ev evs)
  obtain t now smp where ev: "ev = (t, now, smp)" by (cases ev) auto
  let ?P = "\<lambda>u. u < now - 10"
  let ?k = "length (takeWhile ?P (timestamps s @ [t]))"
  define s1 where "s1 = s\<lparr>data := drop ?k (data s @ [smp]),
    timestamps := dropWhile ?P (timestamps s @ [t])\<rparr>"
  have step: "push_sample t now smp s = Inr s1"
    using push_sample_parallel [OF Cons.prems(2)] by (simp add: s1_def)
  have ts1: "timestamps s1 = drop ?k (timestamps s @ [t])"
    by (simp add: s1_def dropWhile_eq_drop)
  have k: "?k \<le> length (timestamps s @ [t])"
    by (rule length_takeWhile_le)
  have e: "timestamps s @ map fst (ev # evs) = (timestamps s @ [t]) @ map fst evs"
    by (simp add: ev)
  have ts1': "timestamps s1 @ map fst evs = drop ?k (timestamps s @ map fst (ev # evs))"
    unfolding e ts1 by (rule drop_append_le [OF k])
  have sorted1: "sorted (timestamps s1 @ map fst evs)"
    unfolding ts1' using Cons.prems(1) by (rule sorted_wrt_drop)
  have len1: "length (data s1) = length (timestamps s1)"
    using Cons.prems(2) by (simp add: ts1) (simp add: s1_def)
  from Cons.IH [OF sorted1 len1] obtain s' j where
    r: "push_samples evs s1 = Inr s'" "length (data s') = length (timestamps s')"
       "timestamps s' = drop j (timestamps s1 @ map fst evs)"
       "evs \<noteq> [] \<longrightarrow> (\<forall>u \<in> set (timestamps s'). fst (snd (last evs)) - 10 \<le> u)"
    by blast
  have run: "push_samples (ev # evs) s = Inr s'"
    by (simp add: ev step r(1))
  have suffix: "timestamps s' = drop (j + ?k) (timestamps s @ map fst (ev # evs))"
    unfolding r(3) ts1' by (simp only: drop_drop)
  have bound: "\<forall>u \<in> set (timestamps s'). fst (snd (last (ev # evs))) - 10 \<le> u"
  proof (cases "evs = []")
    case True
    have "sorted (timestamps s @ [t])"
      using Cons.prems(1) by (simp add: ev True)
    then have "\<forall>u \<in> set (timestamps s1). now - 10 \<le> u"
      unfolding s1_def using dropWhile_sorted_bound [of "timestamps s @ [t]" "now - 10"] by simp
    moreover have "s' = s1" using r(1) True by simp
    ultimately show ?thesis by (simp add: True ev)
  next
    case False
    with r(4) show ?thesis by simp
  qed
  show ?case
    using run r(2) suffix bound by blast
qed

section \<open>De-framing the byte stream\<close>

lemma started_state_tcp:
  assumes "start_observation_tcp alloc fe ne pe s0 = (Started, s1)"
  shows "0 < fs s1 \<and> 0 < n s1 \<and> running s1 \<and> \<not> paused s1 \<and> data s1 = [] \<and> timestamps s1 = []"
  using assms
  by (auto simp: start_observation_tcp_def Let_def split: option.splits if_splits sum.splits)

lemma frombuffer_record:
  assumes "length r = 4 * k"
  shows "frombuffer r = Inr (record_values k r)"
  using assms
proof (induction k arbitrary: r)
  case 0
  then show ?case by (simp add: record_values_def)
next
  case (Suc k)
  then obtain b0 b1 b2 b3 rest where r: "r = b0 # b1 # b2 # b3 # rest" "length rest = 4 * k"
    by (cases r; simp; rename_tac r1; case_tac r1; simp; rename_tac r2; case_tac r2; simp;
        rename_tac r3; case_tac r3; simp)
  have "record_values (Suc k) r = le_float32 b0 b1 b2 b3 # record_values k rest"
    unfolding record_values_def upt_conv_Cons [OF zero_less_Suc] map_Suc_upt [symmetric]
    by (simp add: r(1) comp_def add.commute)
  then show ?case
    using Suc.IH [OF r(2)] by (simp add: r(1))
qed

lemma stream_records_short:
  assumes "length b < 4 * k"
  shows "stream_records k b = []"
  using assms by (simp add: stream_records_def)

lemma stream_records_step:
  assumes "0 < k" "4 * k \<le> length b"
  shows "stream_records k b = take (4 * k) b # stream_records k (drop (4 * k) b)"
proof -
  have d: "length b div (4 * k) = Suc (length (drop (4 * k) b) div (4 * k))"
    using assms le_div_geq [of "4 * k" "length b"] by simp
  show ?thesis
    unfolding stream_records_def d upt_conv_Cons [OF zero_less_Suc] map_Suc_upt [symmetric]
    by (simp add: comp_def add.commute)
qed

lemma stream_records_length: "length (stream_records k b) = length b div (4 * k)"
  by (simp add: stream_records_def)

lemma stream_records_width:
  assumes "r \<in> set (stream_records k b)"
  shows "length r = 4 * k"
proof -
  from assms obtain i where i: "i < length b div (4 * k)" "r = take (4 * k) (drop (i * (4 * k)) b)"
    by (auto simp: stream_records_def)
  have "Suc i * (4 * k) \<le> length b div (4 * k) * (4 * k)"
    using i(1) by (intro mult_le_mono1) simp
  also have "\<dots> \<le> length b"
    by simp
  finally show ?thesis
    by (simp add: i(2))
qed

lemma push_sample_lengths:
  assumes "length (data s) = length (timestamps s)"
  shows "\<exists>s'. push_sample t now smp s = Inr s' \<and> length (data s') = length (timestamps s')"
proof -
  have "length (dropWhile (\<lambda>u. u < now - 10) (timestamps s @ [t]))
      = length (timestamps s @ [t]) - length (takeWhile (\<lambda>u. u < now - 10) (timestamps s @ [t]))"
    by (simp only: dropWhile_eq_drop length_drop)
  then show ?thesis
    using assms by (simp add: push_sample_parallel [OF assms])
qed

lemma extract_records_run:
  assumes "0 < k"
  shows "length (data s) = length (timestamps s) \<Longrightarrow>
    \<exists>s'. extract_records clk k buffer ticks s
            = Some (Inr (drop (length buffer div (4 * k) * (4 * k)) buffer,
                         ticks + 2 * (length buffer div (4 * k)), s'))
       \<and> push_samples (clocked clk ticks (map (record_values k) (stream_records k buffer))) s = Inr s'
       \<and> length (data s') = length (timestamps s')"
proof (induction "length buffer" arbitrary: buffer ticks s rule: less_induct)
  case less
  show ?case
  proof (cases "4 * k \<le> length buffer")
    case False
    then have "extract_records clk k buffer ticks s = Some (Inr (buffer, ticks, s))"
      by (subst extract_records.simps) (simp add: mult.commute [of k 4])
    moreover have "length buffer div (4 * k) = 0"
      using False by simp
    moreover have "stream_records k buffer = []"
      using False by (simp add: stream_records_short)
    ultimately show ?thesis
      using less.prems by simp
  next
    case True
    let ?r = "take (4 * k) buffer"
    let ?rest = "drop (4 * k) buffer"
    have dec: "frombuffer ?r = Inr (record_values k ?r)"
      using True by (intro frombuffer_record) simp
    from push_sample_lengths [OF less.prems] obtain s1 where
      s1: "push_sample (clk ticks) (clk (ticks + 1)) (record_values k ?r) s = Inr s1"
          "length (data s1) = length (timestamps s1)"
      by blast
    have shorter: "length ?rest < length buffer"
      using True assms by simp
    from less.hyps [OF shorter s1(2), of "ticks + 2"] obtain s' where
      r: "extract_records clk k ?rest (ticks + 2) s1
            = Some (Inr (drop (length ?rest div (4 * k) * (4 * k)) ?rest,
                         ticks + 2 + 2 * (length ?rest div (4 * k)), s'))"
         "push_samples (clocked clk (ticks + 2) (map (record_values k) (stream_records k ?rest))) s1 = Inr s'"
         "length (data s') = length (timestamps s')"
      by blast
    have d: "length buffer div (4 * k) = Suc (length ?rest div (4 * k))"
      using assms True le_div_geq [of "4 * k" "length buffer"] by simp
    have km: "k * 4 = 4 * k"
      by simp
    have unf: "extract_records clk k buffer ticks s = extract_records clk k ?rest (ticks + 2) s1"
      by (subst extract_records.simps) (simp only: km True dec s1(1) if_True sum.case)
    have "drop (length buffer div (4 * k) * (4 * k)) buffer
        = drop (length ?rest div (4 * k) * (4 * k)) ?rest"
      unfolding d by (simp add: add.commute)
    moreover have "ticks + 2 * (length buffer div (4 * k)) = ticks + 2 + 2 * (length ?rest div (4 * k))"
      unfolding d by simp
    moreover have "push_samples (clocked clk ticks (map (record_values k) (stream_records k buffer))) s = Inr s'"
      using s1(1) r(2) by (simp add: stream_records_step [OF assms True])
    ultimately show ?thesis
      using unf r(1,3) by simp
  qed
qed

lemma stream_records_append:
  assumes "0 < k"
  shows "stream_records k (a @ b)
     = stream_records k a @ stream_records k (drop (length a div (4 * k) * (4 * k)) a @ b)"
proof (induction "length a" arbitrary: a rule: less_induct)
  case less
  show ?case
  proof (cases "4 * k \<le> length a")
    case False
    then show ?thesis
      by (simp add: stream_records_short)
  next
    case True
    let ?a' = "drop (4 * k) a"
    have shorter: "length ?a' < length a"
      using True assms by simp
    have d: "length a div (4 * k) = Suc (length ?a' div (4 * k))"
      using assms True le_div_geq [of "4 * k" "length a"] by simp
    have "stream_records k (a @ b) = take (4 * k) a # stream_records k (?a' @ b)"
      using True stream_records_step [OF assms, of "a @ b"] by simp
    also have "stream_records k (?a' @ b) = stream_records k ?a'
        @ stream_records k (drop (length ?a' div (4 * k) * (4 * k)) ?a' @ b)"
      by (rule less.hyps [OF shorter])
    also have "drop (length ?a' div (4 * k) * (4 * k)) ?a' = drop (length a div (4 * k) * (4 * k)) a"
      unfolding d by (simp add: add.commute)
    finally show ?thesis
      by (simp add: stream_records_step [OF assms True])
  qed
qed

lemma clocked_append:
  "clocked clk ticks (xs @ ys) = clocked clk ticks xs @ clocked clk (ticks + 2 * length xs) ys"
  by (induction xs arbitrary: ticks) simp_all

lemma push_samples_append:
  "push_samples (e1 @ e2) s
     = (case push_samples e1 s of Inl e \<Rightarrow> Inl e | Inr s1 \<Rightarrow> push_samples e2 s1)"
proof (induction e1 arbitrary: s)
  case Nil
  show ?case by simp
next
  case (Cons ev e1)
  obtain t now smp where ev: "ev = (t, now, smp)" by (cases ev) auto
  show ?case
    by (simp add: ev Cons.IH split: sum.splits)
qed

lemma remainder_drop:
  assumes "0 < (w::nat)"
  shows "drop (length (drop (length a div w * w) a @ b) div w * w) (drop (length a div w * w) a @ b)
       = drop (length (a @ b) div w * w) (a @ b)"
    and "length a div w + length (drop (length a div w * w) a @ b) div w = length (a @ b) div w"
proof -
  let ?k1 = "length a div w"
  have le: "?k1 * w \<le> length a"
    by simp
  have len: "length (drop (?k1 * w) a @ b) = length a mod w + length b"
    by (simp add: minus_div_mult_eq_mod)
  have "length a = ?k1 * w + length a mod w"
    by simp
  then have "length (a @ b) = ?k1 * w + (length a mod w + length b)"
    by simp
  then have "length (a @ b) div w = (?k1 * w + (length a mod w + length b)) div w"
    by (simp only:)
  also have "\<dots> = ?k1 + (length a mod w + length b) div w"
    by (rule div_mult_self3) (use assms in simp)
  finally have "length (a @ b) div w = ?k1 + (length a mod w + length b) div w" .
  then show k: "?k1 + length (drop (?k1 * w) a @ b) div w = length (a @ b) div w"
    unfolding len by (rule sym)
  have "drop (length (drop (?k1 * w) a @ b) div w * w) (drop (?k1 * w) a @ b)
      = drop (length (drop (?k1 * w) a @ b) div w * w) (drop (?k1 * w) (a @ b))"
    using le by simp
  also have "\<dots> = drop ((?k1 + length (drop (?k1 * w) a @ b) div w) * w) (a @ b)"
    by (simp only: drop_drop add_mult_distrib add.commute)
  finally show "drop (length (drop (?k1 * w) a @ b) div w * w) (drop (?k1 * w) a @ b)
       = drop (length (a @ b) div w * w) (a @ b)"
    by (simp only: k)
qed

lemma receive_data_tcp_run:
  assumes "0 < k"
  shows "length buffer < 4 * k \<Longrightarrow> length (data s) = length (timestamps s) \<Longrightarrow>
    \<exists>s'. receive_data_tcp clk k (map Chunk chunks) buffer ticks s
            = Some (Inr (drop (length (buffer @ concat chunks) div (4 * k) * (4 * k)) (buffer @ concat chunks),
                         ticks + 2 * (length (buffer @ concat chunks) div (4 * k)), s'))
       \<and> push_samples (clocked clk ticks
             (map (record_values k) (stream_records k (buffer @ concat chunks)))) s = Inr s'
       \<and> length (data s') = length (timestamps s')"
proof (induction chunks arbitrary: buffer ticks s)
  case Nil
  then show ?case
    by (simp add: stream_records_short)
next
  case (Cons c chunks)
  let ?w = "4 * k"
  let ?a = "buffer @ c"
  let ?k1 = "length ?a div ?w"
  let ?rem = "drop (?k1 * ?w) ?a"
  have w: "0 < ?w"
    using assms by simp
  from extract_records_run [OF assms Cons.prems(2), of clk ?a ticks] obtain s1 where
    e: "extract_records clk k ?a ticks s = Some (Inr (?rem, ticks + 2 * ?k1, s1))"
       "push_samples (clocked clk ticks (map (record_values k) (stream_records k ?a))) s = Inr s1"
       "length (data s1) = length (timestamps s1)"
    by blast
  have "length ?rem = length ?a mod ?w"
    by (simp only: length_drop minus_div_mult_eq_mod)
  then have short: "length ?rem < ?w"
    using w by simp
  from Cons.IH [OF short e(3), of "ticks + 2 * ?k1"] obtain s' where
    r: "receive_data_tcp clk k (map Chunk chunks) ?rem (ticks + 2 * ?k1) s1
          = Some (Inr (drop (length (?rem @ concat chunks) div ?w * ?w) (?rem @ concat chunks),
                       ticks + 2 * ?k1 + 2 * (length (?rem @ concat chunks) div ?w), s'))"
       "push_samples (clocked clk (ticks + 2 * ?k1)
          (map (record_values k) (stream_records k (?rem @ concat chunks)))) s1 = Inr s'"
       "length (data s') = length (timestamps s')"
    by blast
  have whole: "buffer @ concat (c # chunks) = ?a @ concat chunks"
    by simp
  have run: "receive_data_tcp clk k (map Chunk (c # chunks)) buffer ticks s
      = receive_data_tcp clk k (map Chunk chunks) ?rem (ticks + 2 * ?k1) s1"
    by (simp add: e(1))
  have recs: "stream_records k (?a @ concat chunks)
      = stream_records k ?a @ stream_records k (?rem @ concat chunks)"
    by (rule stream_records_append [OF assms])
  have pushes: "push_samples (clocked clk ticks
      (map (record_values k) (stream_records k (?a @ concat chunks)))) s = Inr s'"
    unfolding recs map_append clocked_append push_samples_append length_map stream_records_length
    by (simp only: e(2) sum.case r(2))
  have cnt: "ticks + 2 * ?k1 + 2 * (length (?rem @ concat chunks) div ?w)
      = ticks + 2 * (length (?a @ concat chunks) div ?w)"
    using remainder_drop(2) [OF w, of ?a "concat chunks"] by simp
  show ?case
    unfolding whole run r(1) cnt remainder_drop(1) [OF w, of ?a "concat chunks"]
    using pushes r(3) by simp
qed

lemma push_samples_suffix:
  assumes "length (data s) = length (timestamps s)" "push_samples evs s = Inr s'"
  shows "\<exists>j. data s' = drop j (data s @ map (\<lambda>ev. snd (snd ev)) evs)
           \<and> timestamps s' = drop j (timestamps s @ map fst evs)"
  using assms
proof (induction evs arbitrary: s)
  case Nil
  then show ?case by (auto intro: exI [of _ 0])
next
  case (Cons ev evs)
  obtain t now smp where ev: "ev = (t, now, smp)" by (cases ev) auto
  let ?k = "length (takeWhile (\<lambda>u. u < now - 10) (timestamps s @ [t]))"
  define s1 where "s1 = s\<lparr>data := drop ?k (data s @ [smp]),
    timestamps := dropWhile (\<lambda>u. u < now - 10) (timestamps s @ [t])\<rparr>"
  have step: "push_sample t now smp s = Inr s1"
    using push_sample_parallel [OF Cons.prems(1)] by (simp add: s1_def)
  have k: "?k \<le> length (timestamps s @ [t])" "?k \<le> length (data s @ [smp])"
    using length_takeWhile_le [of "\<lambda>u. u < now - 10" "timestamps s @ [t]"] Cons.prems(1)
    by simp_all
  have ts1: "timestamps s1 = drop ?k (timestamps s @ [t])"
    by (simp add: s1_def dropWhile_eq_drop)
  have ds1: "data s1 = drop ?k (data s @ [smp])"
    by (simp add: s1_def)
  have len1: "length (data s1) = length (timestamps s1)"
    using Cons.prems(1) unfolding ts1 ds1 by simp
  have rest: "push_samples evs s1 = Inr s'"
    using Cons.prems(2) by (simp add: ev step)
  from Cons.IH [OF len1 rest] obtain j where
    j: "data s' = drop j (data s1 @ map (\<lambda>ev. snd (snd ev)) evs)"
       "timestamps s' = drop j (timestamps s1 @ map fst evs)"
    by blast
  have "data s1 @ map (\<lambda>ev. snd (snd ev)) evs = drop ?k (data s @ map (\<lambda>ev. snd (snd ev)) (ev # evs))"
    unfolding ds1 using drop_append_le [OF k(2)] by (simp add: ev)
  moreover have "timestamps s1 @ map fst evs = drop ?k (timestamps s @ map fst (ev # evs))"
    unfolding ts1 using drop_append_le [OF k(1)] by (simp add: ev)
  ultimately have "data s' = drop (j + ?k) (data s @ map (\<lambda>ev. snd (snd ev)) (ev # evs))
      \<and> timestamps s' = drop (j + ?k) (timestamps s @ map fst (ev # evs))"
    unfolding j by (simp only: drop_drop)
  then show ?case
    by blast
qed

lemma clocked_samples: "map (\<lambda>ev. snd (snd ev)) (clocked clk ticks smps) = smps"
  by (induction smps arbitrary: ticks) simp_all

text \<open>
  Claim C2. After a start with \<open>N = k\<close>, the receiver fed the chunks \<open>chunks\<close> (of any sizes, on
  an empty accumulation buffer) ends, with no exception, having pushed exactly the
  \<open>K = length stream div (4 * k)\<close> complete records of the stream \<open>concat chunks\<close>: the state is
  the one reached by pushing record \<open>0\<close>, record \<open>1\<close>, ... in this order, each decoded as \<open>k\<close>
  little-endian float32 values, two clock readings per push; the window holds the most
  recent of them; the bytes after the last complete record stay in the buffer; and two
  chunkings of the same stream give the same result.
\<close>

theorem socket_deframing:
  assumes "start_observation_tcp alloc fs_entry n_entry port_entry s0 = (Started, s1)"
  shows "let k = nat (n s1);
             stream = concat chunks;
             K = length stream div (4 * k);
             samples = map (record_values k) (stream_records k stream)
         in length samples = K
          \<and> (\<exists>s'. receive_data_tcp clk k (map Chunk chunks) [] ticks s1
                    = Some (Inr (drop (K * (4 * k)) stream, ticks + 2 * K, s'))
                \<and> push_samples (clocked clk ticks samples) s1 = Inr s'
                \<and> (\<exists>j. data s' = drop j samples))
          \<and> (\<forall>chunks'. concat chunks' = stream \<longrightarrow>
                receive_data_tcp clk k (map Chunk chunks') [] ticks s1
                  = receive_data_tcp clk k (map Chunk chunks) [] ticks s1)"
proof -
  define k where "k = nat (n s1)"
  note st = started_state_tcp [OF assms]
  have k: "0 < k"
    using st by (simp add: k_def)
  have len: "length (data s1) = length (timestamps s1)"
    using st by simp
  have short: "length ([] :: byte list) < 4 * k"
    using k by simp
  have run: "\<exists>s'. receive_data_tcp clk k (map Chunk cs) [] ticks s1
            = Some (Inr (drop (length (concat cs) div (4 * k) * (4 * k)) (concat cs),
                         ticks + 2 * (length (concat cs) div (4 * k)), s'))
       \<and> push_samples (clocked clk ticks
             (map (record_values k) (stream_records k (concat cs)))) s1 = Inr s'" for cs
    using receive_data_tcp_run [OF k short len, of clk cs ticks] by auto
  from run [of chunks] obtain s' where
    s': "receive_data_tcp clk k (map Chunk chunks) [] ticks s1
            = Some (Inr (drop (length (concat chunks) div (4 * k) * (4 * k)) (concat chunks),
                         ticks + 2 * (length (concat chunks) div (4 * k)), s'))"
        "push_samples (clocked clk ticks
             (map (record_values k) (stream_records k (concat chunks)))) s1 = Inr s'"
    by blast
  from push_samples_suffix [OF len s'(2)] have
    suffix: "\<exists>j. data s' = drop j (map (record_values k) (stream_records k (concat chunks)))"
    using st by (auto simp: clocked_samples)
  have indep: "receive_data_tcp clk k (map Chunk cs) [] ticks s1
      = receive_data_tcp clk k (map Chunk chunks) [] ticks s1" if "concat cs = concat chunks" for cs
  proof -
    from run [of cs] obtain t' where
      t': "receive_data_tcp clk k (map Chunk cs) [] ticks s1
            = Some (Inr (drop (length (concat cs) div (4 * k) * (4 * k)) (concat cs),
                         ticks + 2 * (length (concat cs) div (4 * k)), t'))"
          "push_samples (clocked clk ticks
             (map (record_values k) (stream_records k (concat cs)))) s1 = Inr t'"
      by blast
    have "t' = s'"
      using t'(2) s'(2) that by simp
    then show ?thesis
      using t'(1) s'(1) that by simp
  qed
  have count: "length (map (record_values k) (stream_records k (concat chunks)))
      = length (concat chunks) div (4 * k)"
    by (simp only: length_map stream_records_length)
  have ex: "\<exists>s'. receive_data_tcp clk k (map Chunk chunks) [] ticks s1
            = Some (Inr (drop (length (concat chunks) div (4 * k) * (4 * k)) (concat chunks),
                         ticks + 2 * (length (concat chunks) div (4 * k)), s'))
       \<and> push_samples (clocked clk ticks
             (map (record_values k) (stream_records k (concat chunks)))) s1 = Inr s'
       \<and> (\<exists>j. data s' = drop j (map (record_values k) (stream_records k (concat chunks))))"
    using s' suffix by blast
  show ?thesis
    unfolding Let_def k_def [symmetric]
    using count ex indep by blast
qed

text \<open>A stream of two records of one float32 and one more byte, in three chunks.\<close>

lemma example_stream_records: "stream_records 1 [1,0,0,0,2,0,0,0,9] = [[1,0,0,0],[2,0,0,0]]"
  by (simp add: stream_records_def upt_rec)

lemma example_record_values: "record_values 1 [1,0,0,0] = [1]" "record_values 1 [2,0,0,0] = [2]"
  by (simp_all add: record_values_def le_float32_def)

lemma example_start_tcp: "start_observation_tcp roomy (Some 8) (Some 1) (Some 9999) init_tcp
  = (Started, init_tcp\<lparr>fs := 8, n := 1, port := 9999, freqs := linspace 0 4 1, running := True,
       threads := [ReceiveDataTcp, AutoSave]\<rparr>)"
  by (simp add: start_observation_tcp_def init_tcp_def half_as_float_def np_linspace_def roomy_def)

lemma example_pushes: "push_samples (clocked real 0 [[1],[2]]) (snd (start_observation_tcp roomy (Some 8) (Some 1) (Some 9999) init_tcp))
  = Inr ((snd (start_observation_tcp roomy (Some 8) (Some 1) (Some 9999) init_tcp))\<lparr>data := [[1],[2]], timestamps := [0, 2]\<rparr>)"
  unfolding example_start_tcp by (simp add: push_sample_def init_tcp_def)

theorem socket_deframing_witness:
  "fst (start_observation_tcp roomy (Some 8) (Some 1) (Some 9999) init_tcp) = Started
   \<and> (\<exists>s'. receive_data_tcp real 1 (map Chunk [[1, 0], [0, 0, 2], [0, 0, 0, 9]]) [] 0
              (snd (start_observation_tcp roomy (Some 8) (Some 1) (Some 9999) init_tcp))
            = Some (Inr ([9], 4, s'))
          \<and> data s' = [[1], [2]])"
proof -
  let ?s1 = "snd (start_observation_tcp roomy (Some 8) (Some 1) (Some 9999) init_tcp)"
  have e: "start_observation_tcp roomy (Some 8) (Some 1) (Some 9999) init_tcp = (Started, ?s1)"
    by (simp add: example_start_tcp)
  have k: "nat (n ?s1) = 1"
    by (simp add: example_start_tcp)
  have c: "concat [[1, 0], [0, 0, 2], [0, 0, 0, 9 :: byte]] = [1, 0, 0, 0, 2, 0, 0, 0, 9]"
    by simp
  have v: "drop (length [1, 0, 0, 0, 2, 0, 0, 0, 9 :: byte] div (4 * 1) * (4 * 1))
        [1, 0, 0, 0, 2, 0, 0, 0, 9 :: byte] = [9]"
    "0 + 2 * (length [1, 0, 0, 0, 2, 0, 0, 0, 9 :: byte] div (4 * 1)) = 4"
    by simp_all
  from socket_deframing [OF e, of "[[1, 0], [0, 0, 2], [0, 0, 0, 9]]" real 0]
  obtain s' where
    s': "receive_data_tcp real 1 (map Chunk [[1, 0], [0, 0, 2], [0, 0, 0, 9]]) [] 0 ?s1
           = Some (Inr ([9], 4, s'))"
        "push_samples (clocked real 0 [[1], [2]]) ?s1 = Inr s'"
    unfolding Let_def k c example_stream_records list.map example_record_values v by blast
  have d: "data s' = [[1], [2]]"
    using s'(2) unfolding example_pushes by auto
  have f: "fst (start_observation_tcp roomy (Some 8) (Some 1) (Some 9999) init_tcp) = Started"
    by (simp add: example_start_tcp)
  show ?thesis
    using f s'(1) d by blast
qed

section \<open>The invariant of the timestamped window\<close>

text \<open>
  Claim C3. From the start of a session, after every push (append, then eviction with the
  cutoff \<open>now - 10\<close>), when the timestamps of the pushes so far are non-decreasing: the push
  raises nothing, every timestamp left in the window is at least \<open>now - 10\<close> for the \<open>now\<close> of
  that push, the timestamps are non-decreasing from front to back, and the two lists have one
  length. The state between two pushes is the state after the earlier one.
\<close>

theorem deque_window_invariant:
  assumes "start_observation_tcp alloc fs_entry n_entry port_entry s0 = (Started, s1)"
      and "sorted (map fst (evs @ [(t, now, smp)]))"
  shows "\<exists>s'. push_samples (evs @ [(t, now, smp)]) s1 = Inr s'
           \<and> (\<forall>u \<in> set (timestamps s'). now - 10 \<le> u)
           \<and> sorted (timestamps s')
           \<and> length (data s') = length (timestamps s')"
proof -
  note st = started_state_tcp [OF assms(1)]
  have srt: "sorted (timestamps s1 @ map fst (evs @ [(t, now, smp)]))"
    using assms(2) st by simp
  have len: "length (data s1) = length (timestamps s1)"
    using st by simp
  from push_samples_invariant [OF srt len] obtain s' j where
    r: "push_samples (evs @ [(t, now, smp)]) s1 = Inr s'"
       "length (data s') = length (timestamps s')"
       "timestamps s' = drop j (timestamps s1 @ map fst (evs @ [(t, now, smp)]))"
       "\<forall>u \<in> set (timestamps s'). fst (snd (last (evs @ [(t, now, smp)]))) - 10 \<le> u"
    by blast
  have "sorted (timestamps s')"
    unfolding r(3) using srt by (rule sorted_wrt_drop)
  moreover have "\<forall>u \<in> set (timestamps s'). now - 10 \<le> u"
    using r(4) by simp
  ultimately show ?thesis
    using r(1,2) by blast
qed

theorem deque_window_invariant_witness:
  "fst (start_observation_tcp roomy (Some 8) (Some 1) (Some 9999) init_tcp) = Started
   \<and> sorted (map fst ([(0, 0, [1])] @ [(20 :: real, 21 :: real, [2 :: float32])]))
   \<and> (\<exists>s'. push_samples ([(0, 0, [1])] @ [(20, 21, [2])])
             (snd (start_observation_tcp roomy (Some 8) (Some 1) (Some 9999) init_tcp)) = Inr s'
          \<and> timestamps s' = [20]
          \<and> sorted (timestamps s')
          \<and> length (data s') = length (timestamps s'))"
proof -
  let ?s1 = "snd (start_observation_tcp roomy (Some 8) (Some 1) (Some 9999) init_tcp)"
  have e: "start_observation_tcp roomy (Some 8) (Some 1) (Some 9999) init_tcp = (Started, ?s1)"
    by (simp add: example_start_tcp)
  have f: "fst (start_observation_tcp roomy (Some 8) (Some 1) (Some 9999) init_tcp) = Started"
    by (simp add: example_start_tcp)
  have srt: "sorted (map fst ([(0, 0, [1])] @ [(20 :: real, 21 :: real, [2 :: float32])]))"
    by simp
  from deque_window_invariant [OF e srt] obtain s' where
    s': "push_samples ([(0, 0, [1])] @ [(20, 21, [2])]) ?s1 = Inr s'"
        "sorted (timestamps s')" "length (data s') = length (timestamps s')"
    by blast
  have "push_samples ([(0, 0, [1])] @ [(20, 21, [2])]) ?s1
      = Inr (?s1\<lparr>data := [[2]], timestamps := [20]\<rparr>)"
    unfolding example_start_tcp by (simp add: push_sample_def init_tcp_def)
  with s'(1) have "timestamps s' = [20]"
    by auto
  then show ?thesis
    using f srt s' by blast
qed

section \<open>One push reaches the three windows\<close>

lemma generate_data_snoc: "generate_data (xs @ [x]) s = generate_data_step x (generate_data xs s)"
  by (induction xs arbitrary: s) simp_all

lemma last_of_recent:
  assumes "0 < c"
  shows "last (drop (Suc (length xs)) (replicate c z @ xs @ [x])) = x"
proof -
  have "Suc (length xs) < length (replicate c z @ xs @ [x])"
    using assms by simp
  then have "last (drop (Suc (length xs)) (replicate c z @ xs @ [x])) = last (replicate c z @ xs @ [x])"
    by (rule last_drop)
  then show ?thesis
    by simp
qed

text \<open>
  Claim C4. The three windows are written in one block under the lock that every reader
  takes, so the states a reader can see are the states between two runs of
  \<open>generate_data_step\<close>. After the push of \<open>x\<close> that follows the pushes \<open>xs\<close> of a session, each
  of the three windows ends with \<open>x\<close> and is the tail of the same sequence \<open>xs @ [x]\<close>, and the
  three cursors, which count the pushes modulo the window sizes, have moved from
  \<open>length xs\<close> to \<open>length xs + 1\<close> together.
\<close>

theorem window_set_push:
  assumes "configured s0" and "start_observation alloc fs_entry n_entry s0 = (Started, s1)"
  shows "let s = generate_data xs s1;
             s' = generate_data_step x s;
             z = replicate (nat (n s1)) 0
         in ordered_rows (live_index s') (live_buffer s') = drop (Suc (length xs)) (replicate 500 z @ xs @ [x])
          \<and> ordered_rows (save_index s') (save_buffer s') = drop (Suc (length xs)) (replicate 3000 z @ xs @ [x])
          \<and> ordered_rows (avg_index s') (avg_buffer s') = drop (Suc (length xs)) (replicate 1500 z @ xs @ [x])
          \<and> last (ordered_rows (live_index s') (live_buffer s')) = x
          \<and> last (ordered_rows (save_index s') (save_buffer s')) = x
          \<and> last (ordered_rows (avg_index s') (avg_buffer s')) = x
          \<and> live_index s = length xs mod 500 \<and> live_index s' = Suc (length xs) mod 500
          \<and> save_index s = length xs mod 3000 \<and> save_index s' = Suc (length xs) mod 3000
          \<and> avg_index s = length xs mod 1500 \<and> avg_index s' = Suc (length xs) mod 1500"
proof -
  define s where "s = generate_data xs s1"
  define s' where "s' = generate_data_step x s"
  define z :: vector where "z = replicate (nat (n s1)) 0"
  have s'_eq: "s' = generate_data (xs @ [x]) s1"
    by (simp add: s'_def s_def generate_data_snoc)
  note st = started_state [OF assms]
  have live0: "length (live_buffer s1) = live_steps s1" "live_index s1 < live_steps s1"
    and save0: "length (save_buffer s1) = save_steps s1" "save_index s1 < save_steps s1"
    and avg0: "length (avg_buffer s1) = avg_steps s1" "avg_index s1 < avg_steps s1"
    using st by simp_all
  have live: "ordered_rows (live_index s') (live_buffer s') = drop (Suc (length xs)) (replicate 500 z @ xs @ [x])"
    using live_window_history [OF live0, of "xs @ [x]"] st by (simp add: s'_eq z_def ordered_rows_def)
  have save: "ordered_rows (save_index s') (save_buffer s') = drop (Suc (length xs)) (replicate 3000 z @ xs @ [x])"
    using save_window_history [OF save0, of "xs @ [x]"] st by (simp add: s'_eq z_def ordered_rows_def)
  have avg: "ordered_rows (avg_index s') (avg_buffer s') = drop (Suc (length xs)) (replicate 1500 z @ xs @ [x])"
    using avg_window_history [OF avg0, of "xs @ [x]"] st by (simp add: s'_eq z_def ordered_rows_def)
  have idx: "live_index s = length xs mod 500" "save_index s = length xs mod 3000"
    "avg_index s = length xs mod 1500"
    using live_index_count [OF live0(2), of xs] save_index_count [OF save0(2), of xs]
      avg_index_count [OF avg0(2), of xs] st by (simp_all add: s_def)
  have idx': "live_index s' = Suc (length xs) mod 500" "save_index s' = Suc (length xs) mod 3000"
    "avg_index s' = Suc (length xs) mod 1500"
    using live_index_count [OF live0(2), of "xs @ [x]"] save_index_count [OF save0(2), of "xs @ [x]"]
      avg_index_count [OF avg0(2), of "xs @ [x]"] st by (simp_all add: s'_eq)
  have lasts: "last (ordered_rows (live_index s') (live_buffer s')) = x"
    "last (ordered_rows (save_index s') (save_buffer s')) = x"
    "last (ordered_rows (avg_index s') (avg_buffer s')) = x"
    unfolding live save avg by (rule last_of_recent, simp)+
  show ?thesis
    unfolding Let_def s_def [symmetric] s'_def [symmetric] z_def [symmetric]
    using live save avg lasts idx idx' by blast
qed

theorem window_set_push_witness:
  "configured init
   \<and> fst (start_observation roomy (Some 8) (Some 1) init) = Started
   \<and> (let s' = generate_data_step [2]
                 (generate_data [[1]] (snd (start_observation roomy (Some 8) (Some 1) init)))
      in last (ordered_rows (live_index s') (live_buffer s')) = [2]
       \<and> last (ordered_rows (save_index s') (save_buffer s')) = [2]
       \<and> last (ordered_rows (avg_index s') (avg_buffer s')) = [2]
       \<and> live_index s' = 2 \<and> save_index s' = 2 \<and> avg_index s' = 2)"
proof -
  let ?s1 = "snd (start_observation roomy (Some 8) (Some 1) init)"
  define s' where "s' = generate_data_step [2] (generate_data [[1]] ?s1)"
  have c: "configured init"
    by (simp add: configured_def init_def)
  have f: "fst (start_observation roomy (Some 8) (Some 1) init) = Started"
    by (simp add: start_observation_roomy [OF c])
  then have e: "start_observation roomy (Some 8) (Some 1) init = (Started, ?s1)"
    by (metis prod.collapse)
  note inst = window_set_push [OF c e, of "[[1]]" "[2]"]
  have lasts: "last (ordered_rows (live_index s') (live_buffer s')) = [2]
      \<and> last (ordered_rows (save_index s') (save_buffer s')) = [2]
      \<and> last (ordered_rows (avg_index s') (avg_buffer s')) = [2]"
    using inst unfolding Let_def s'_def by blast
  have "live_index s' = Suc (length [[1::real]]) mod 500
      \<and> save_index s' = Suc (length [[1::real]]) mod 3000
      \<and> avg_index s' = Suc (length [[1::real]]) mod 1500"
    using inst unfolding Let_def s'_def by blast
  then have "live_index s' = 2 \<and> save_index s' = 2 \<and> avg_index s' = 2"
    by simp
  then show ?thesis
    using c f lasts unfolding Let_def s'_def by blast
qed

section \<open>Empty windows and persistence\<close>

lemma all_zero_replicate: "all_zero (replicate r (replicate c 0))"
  by (simp add: all_zero_def list_all_iff)

lemma all_zero_update:
  assumes "all_zero b" "list_all (\<lambda>v. v = 0) x"
  shows "all_zero (b[i := x])"
proof -
  have "set (b[i := x]) \<subseteq> insert x (set b)"
    by (rule set_update_subset_insert)
  then show ?thesis
    using assms unfolding all_zero_def list_all_iff by blast
qed

lemma zero_samples_keep_zero:
  assumes "\<forall>x \<in> set xs. list_all (\<lambda>v. v = 0) x"
    and "all_zero (live_buffer s)" "all_zero (save_buffer s)" "all_zero (avg_buffer s)"
  shows "all_zero (live_buffer (generate_data xs s)) \<and> all_zero (save_buffer (generate_data xs s))
       \<and> all_zero (avg_buffer (generate_data xs s))"
  using assms
proof (induction xs arbitrary: s)
  case Nil
  then show ?case by simp
next
  case (Cons x xs)
  have x: "list_all (\<lambda>v. v = 0) x" and xs: "\<forall>x \<in> set xs. list_all (\<lambda>v. v = 0) x"
    using Cons.prems(1) by simp_all
  have "all_zero (live_buffer (generate_data_step x s))" "all_zero (save_buffer (generate_data_step x s))"
    "all_zero (avg_buffer (generate_data_step x s))"
    using Cons.prems(2-4) x by (simp_all add: generate_data_step_def all_zero_update)
  from Cons.IH [OF xs this] show ?case
    by simp
qed

lemma generate_data_running: "running (generate_data xs s) = running s"
  by (induction xs arbitrary: s) (simp_all add: generate_data_step_def)

text \<open>
  Claim C9. On a freshly started session with no sample received, \<open>save_outputs\<close> of either
  program writes no file and raises nothing. It returns the files only: it assigns no
  attribute of the application.
\<close>

theorem persistence_noop_on_empty_window:
  "(configured s0 \<longrightarrow> start_observation alloc fs_entry n_entry s0 = (Started, s1) \<longrightarrow>
      save_outputs base_name s1 = [])
   \<and> (start_observation_tcp alloc fs_entry n_entry port_entry t0 = (Started, t1) \<longrightarrow>
      save_outputs_tcp base_name t1 = Inr [])
   \<and> save_outputs_tcp base_name init_tcp = Inr []"
proof (intro conjI impI)
  assume "configured s0" "start_observation alloc fs_entry n_entry s0 = (Started, s1)"
  from started_state [OF this] show "save_outputs base_name s1 = []"
    by (simp add: save_outputs_def all_zero_replicate)
next
  assume "start_observation_tcp alloc fs_entry n_entry port_entry t0 = (Started, t1)"
  from started_state_tcp [OF this] show "save_outputs_tcp base_name t1 = Inr []"
    by (simp add: save_outputs_tcp_def)
next
  show "save_outputs_tcp base_name init_tcp = Inr []"
    by (simp add: save_outputs_tcp_def init_tcp_def)
qed

theorem persistence_noop_on_empty_window_witness:
  "configured init
   \<and> fst (start_observation roomy (Some 8) (Some 1) init) = Started
   \<and> save_outputs ''out'' (snd (start_observation roomy (Some 8) (Some 1) init)) = []
   \<and> fst (start_observation_tcp roomy (Some 8) (Some 1) (Some 9999) init_tcp) = Started
   \<and> save_outputs_tcp ''out'' (snd (start_observation_tcp roomy (Some 8) (Some 1) (Some 9999) init_tcp)) = Inr []"
proof -
  let ?s1 = "snd (start_observation roomy (Some 8) (Some 1) init)"
  let ?t1 = "snd (start_observation_tcp roomy (Some 8) (Some 1) (Some 9999) init_tcp)"
  have c: "configured init"
    by (simp add: configured_def init_def)
  have f: "fst (start_observation roomy (Some 8) (Some 1) init) = Started"
    by (simp add: start_observation_roomy [OF c])
  then have e: "start_observation roomy (Some 8) (Some 1) init = (Started, ?s1)"
    by (metis prod.collapse)
  have ft: "fst (start_observation_tcp roomy (Some 8) (Some 1) (Some 9999) init_tcp) = Started"
    by (simp add: example_start_tcp)
  then have et: "start_observation_tcp roomy (Some 8) (Some 1) (Some 9999) init_tcp = (Started, ?t1)"
    by (metis prod.collapse)
  show ?thesis
    using c f ft e et
      persistence_noop_on_empty_window [of init roomy "Some 8" "Some 1" ?s1 "''out''" "Some 9999"
        init_tcp ?t1]
    by blast
qed

text \<open>
  Claim C10. In plot\_inno2.py a window is empty when all its values are zero: \<open>save_outputs\<close>
  writes no file exactly when the save buffer is all zero, and a running \<open>update_plot\<close> skips
  the drawing exactly when the live buffer is. After any number of all-zero samples pushed
  into a fresh session, \<open>save_outputs\<close> writes what it writes with no sample at all: nothing.
\<close>

theorem zero_window_treated_as_empty:
  assumes "configured s0" and "start_observation alloc fs_entry n_entry s0 = (Started, s1)"
    and "\<forall>x \<in> set xs. list_all (\<lambda>v. v = 0) x"
  shows "save_outputs base_name (generate_data xs s1) = []
       \<and> save_outputs base_name (generate_data xs s1) = save_outputs base_name s1
       \<and> update_plot (generate_data xs s1) s' = Waiting
       \<and> (save_outputs base_name s = [] \<longleftrightarrow> all_zero (save_buffer s))
       \<and> (running s \<longrightarrow> (update_plot s s' = Waiting \<longleftrightarrow> all_zero (live_buffer s)))"
proof -
  note st = started_state [OF assms(1,2)]
  have z0: "all_zero (live_buffer s1)" "all_zero (save_buffer s1)" "all_zero (avg_buffer s1)"
    using st by (simp_all add: all_zero_replicate)
  note z = zero_samples_keep_zero [OF assms(3) z0]
  have a: "save_outputs base_name (generate_data xs s1) = []"
    using z by (simp add: save_outputs_def)
  have b: "save_outputs base_name s1 = []"
    using z0 by (simp add: save_outputs_def)
  have c: "update_plot (generate_data xs s1) s' = Waiting"
    using z st by (simp add: update_plot_def generate_data_running)
  have d: "save_outputs base_name s = [] \<longleftrightarrow> all_zero (save_buffer s)"
    by (simp add: save_outputs_def Let_def)
  have e: "running s \<longrightarrow> (update_plot s s' = Waiting \<longleftrightarrow> all_zero (live_buffer s))"
    by (simp add: update_plot_def)
  show ?thesis
    using a b c d e by simp
qed

theorem zero_window_treated_as_empty_witness:
  "configured init
   \<and> fst (start_observation roomy (Some 8) (Some 2) init) = Started
   \<and> all_zero [[0, 0], [0, 0]]
   \<and> save_outputs ''out'' (generate_data [[0, 0], [0, 0]] (snd (start_observation roomy (Some 8) (Some 2) init))) = []
   \<and> update_plot (generate_data [[0, 0], [0, 0]] (snd (start_observation roomy (Some 8) (Some 2) init))) init
       = Waiting"
proof -
  let ?s1 = "snd (start_observation roomy (Some 8) (Some 2) init)"
  have c: "configured init"
    by (simp add: configured_def init_def)
  have f: "fst (start_observation roomy (Some 8) (Some 2) init) = Started"
    by (simp add: start_observation_roomy [OF c])
  then have e: "start_observation roomy (Some 8) (Some 2) init = (Started, ?s1)"
    by (metis prod.collapse)
  have z: "\<forall>x \<in> set [[0, 0], [0, 0 :: real]]. list_all (\<lambda>v. v = 0) x"
    by simp
  have z': "all_zero [[0, 0], [0, 0]]"
    by (simp add: all_zero_def)
  show ?thesis
    using c f z' zero_window_treated_as_empty [OF c e z, of "''out''" init]
    by blast
qed

section \<open>The peak of the mean spectrum\<close>

lemma argmax_scan_first_max:
  assumes "length pre = i" "bi < i" "pre ! bi = b" "\<forall>y \<in> set pre. y \<le> b" "\<forall>j < bi. pre ! j < b"
  shows "argmax_scan xs i bi b < length (pre @ xs)
       \<and> (\<forall>y \<in> set (pre @ xs). y \<le> (pre @ xs) ! argmax_scan xs i bi b)
       \<and> (\<forall>j < argmax_scan xs i bi b. (pre @ xs) ! j < (pre @ xs) ! argmax_scan xs i bi b)"
  using assms
proof (induction xs arbitrary: pre i bi b)
  case Nil
  then show ?case by simp
next
  case (Cons x xs)
  let ?pre = "pre @ [x]"
  have len: "length ?pre = i + 1"
    using Cons.prems(1) by simp
  show ?case
  proof (cases "b < x")
    case True
    have a: "i < i + 1" by simp
    have b: "?pre ! i = x"
      using Cons.prems(1) [symmetric] by simp
    have c: "\<forall>y \<in> set ?pre. y \<le> x"
      using Cons.prems(4) True by auto
    have d: "\<forall>j < i. ?pre ! j < x"
    proof (intro allI impI)
      fix j assume j: "j < i"
      then have jl: "j < length pre"
        using Cons.prems(1) by simp
      then have "?pre ! j = pre ! j"
        by (simp add: nth_append)
      moreover have "pre ! j \<le> b"
        using Cons.prems(4) jl by simp
      ultimately show "?pre ! j < x"
        using True by simp
    qed
    from Cons.IH [OF len a b c d] show ?thesis
      using True by simp
  next
    case False
    have a: "bi < i + 1"
      using Cons.prems(2) by simp
    have bl: "bi < length pre"
      using Cons.prems(1,2) by simp
    have b: "?pre ! bi = b"
      using Cons.prems(3) bl by (simp add: nth_append)
    have c: "\<forall>y \<in> set ?pre. y \<le> b"
      using Cons.prems(4) False by auto
    have d: "\<forall>j < bi. ?pre ! j < b"
      using Cons.prems(5) bl by (simp add: nth_append)
    from Cons.IH [OF len a b c d] show ?thesis
      using False by simp
  qed
qed

lemma argmax_first_max:
  assumes "a \<noteq> []"
  shows "\<exists>i. argmax a = Inr i \<and> i < length a
       \<and> (\<forall>j < length a. a ! j \<le> a ! i) \<and> (\<forall>j < i. a ! j < a ! i)"
proof -
  from assms obtain x xs where a: "a = x # xs"
    by (cases a) auto
  have "argmax_scan xs 1 0 x < length ([x] @ xs)
       \<and> (\<forall>y \<in> set ([x] @ xs). y \<le> ([x] @ xs) ! argmax_scan xs 1 0 x)
       \<and> (\<forall>j < argmax_scan xs 1 0 x. ([x] @ xs) ! j < ([x] @ xs) ! argmax_scan xs 1 0 x)"
    by (rule argmax_scan_first_max) simp_all
  then have "argmax_scan xs 1 0 x < length a
       \<and> (\<forall>y \<in> set a. y \<le> a ! argmax_scan xs 1 0 x)
       \<and> (\<forall>j < argmax_scan xs 1 0 x. a ! j < a ! argmax_scan xs 1 0 x)"
    unfolding a by simp
  moreover have "argmax a = Inr (argmax_scan xs 1 0 x)"
    by (simp add: argmax_def a)
  ultimately show ?thesis
    by (metis nth_mem)
qed

lemma mean_axis0_length: "length (mean_axis0 cols a) = cols"
  by (simp add: mean_axis0_def)

lemma update_plot_peak:
  assumes "running s" and "0 < n s'" and "length (freqs s') = nat (n s')"
  shows "(all_zero (live_buffer s) \<longrightarrow> update_plot s s' = Waiting)
       \<and> (\<not> all_zero (live_buffer s) \<longrightarrow>
            (\<exists>m. update_plot s s'
                   = Drawn (ordered_rows (live_index s) (live_buffer s), Inr (freqs s' ! m))
               \<and> m < nat (n s')
               \<and> (let avg_spectrum = mean_axis0 (nat (n s')) (ordered_rows (avg_index s') (avg_buffer s'))
                  in (\<forall>j < nat (n s'). avg_spectrum ! j \<le> avg_spectrum ! m)
                   \<and> (\<forall>j < m. avg_spectrum ! j < avg_spectrum ! m))))"
proof -
  define sp where "sp = mean_axis0 (nat (n s')) (ordered_rows (avg_index s') (avg_buffer s'))"
  have len: "length sp = nat (n s')"
    by (simp add: sp_def mean_axis0_length)
  then have "sp \<noteq> []"
    using assms(2) by auto
  from argmax_first_max [OF this] obtain m where
    m: "argmax sp = Inr m" "m < length sp" "\<forall>j < length sp. sp ! j \<le> sp ! m" "\<forall>j < m. sp ! j < sp ! m"
    by blast
  have pf: "peak_freq s' = Inr (freqs s' ! m)"
    using m(1,2) len assms(3) by (simp add: peak_freq_def Let_def sp_def [symmetric])
  have a: "all_zero (live_buffer s) \<longrightarrow> update_plot s s' = Waiting"
    using assms(1) by (simp add: update_plot_def)
  have b: "\<not> all_zero (live_buffer s) \<longrightarrow>
      update_plot s s' = Drawn (ordered_rows (live_index s) (live_buffer s), Inr (freqs s' ! m))"
    using assms(1) by (simp add: update_plot_def pf)
  show ?thesis
    unfolding Let_def sp_def [symmetric]
    using a b m(2,3,4) len by auto
qed

lemma ordered_rows_set: "set (ordered_rows i b) = set b"
proof -
  have "set (drop i b @ take i b) = set (take i b @ drop i b)"
    by (simp only: set_append Un_commute)
  then show ?thesis
    by (simp add: ordered_rows_eq)
qed

lemma all_zero_ordered_rows: "all_zero (ordered_rows i b) = all_zero b"
  by (simp add: all_zero_def list_all_iff ordered_rows_set)

lemma recent_rows_subset:
  assumes "c \<le> c'"
  shows "set (drop (length xs) (replicate c z @ xs))
       \<subseteq> insert z (set (drop (length xs) (replicate c' z @ xs)))"
proof (cases "c' \<le> length xs")
  case True
  then have "length xs - c' \<le> length xs - c"
    using assms by simp
  then have "set (drop (length xs - c) xs) \<subseteq> set (drop (length xs - c') xs)"
    by (rule set_drop_subset_set_drop)
  then show ?thesis
    using True assms by (auto simp: last_rows)
next
  case False
  have "set (drop (length xs) (replicate c z @ xs)) \<subseteq> insert z (set xs)"
    by (auto simp: last_rows dest: in_set_dropD)
  moreover have "set xs \<subseteq> set (drop (length xs) (replicate c' z @ xs))"
    using False by (auto simp: last_rows)
  ultimately show ?thesis
    by blast
qed

lemma generate_data_fixed:
  "n (generate_data xs s) = n s \<and> fs (generate_data xs s) = fs s
   \<and> freqs (generate_data xs s) = freqs s"
  by (induction xs arbitrary: s) (simp_all add: generate_data_step_def)

lemma started_freqs:
  assumes "configured s0" "start_observation alloc fe ne s0 = (Started, s1)"
  shows "length (freqs s1) = nat (n s1)"
proof -
  from start_observation_cases [OF assms] obtain f m
    where fm: "fe = Some f" "ne = Some m" "0 < f" "0 < m" "f < 2 ^ 1025 - 2 ^ 971"
      "alloc (nat m) = None" "alloc (500 * nat m) = None" "alloc (3000 * nat m) = None"
      "alloc (1500 * nat m) = None"
    by blast
  from assms(2) show ?thesis
    unfolding fm(1,2) start_observation_started [OF assms(1) fm(3-)]
    by (auto simp: linspace_def)
qed

lemma empty_average_window_is_empty_live_window:
  assumes "configured s0" and "start_observation alloc fe ne s0 = (Started, s1)"
    and "all_zero (avg_buffer (generate_data xs s1))"
  shows "all_zero (live_buffer (generate_data xs s1))"
proof -
  define s where "s = generate_data xs s1"
  define z :: vector where "z = replicate (nat (n s1)) 0"
  note st = started_state [OF assms(1,2)]
  have live0: "length (live_buffer s1) = live_steps s1" "live_index s1 < live_steps s1"
    and avg0: "length (avg_buffer s1) = avg_steps s1" "avg_index s1 < avg_steps s1"
    using st by simp_all
  have live: "ordered_rows (live_index s) (live_buffer s) = drop (length xs) (replicate 500 z @ xs)"
    using live_window_history [OF live0, of xs] st by (simp add: s_def z_def ordered_rows_def)
  have avg: "ordered_rows (avg_index s) (avg_buffer s) = drop (length xs) (replicate 1500 z @ xs)"
    using avg_window_history [OF avg0, of xs] st by (simp add: s_def z_def ordered_rows_def)
  have sub: "set (ordered_rows (live_index s) (live_buffer s))
      \<subseteq> insert z (set (ordered_rows (avg_index s) (avg_buffer s)))"
    unfolding live avg by (rule recent_rows_subset) simp
  have z: "list_all (\<lambda>v. v = 0) z"
    by (simp add: z_def list_all_iff)
  have "all_zero (ordered_rows (avg_index s) (avg_buffer s))"
    using assms(3) by (simp add: all_zero_ordered_rows s_def)
  then have "all_zero (ordered_rows (live_index s) (live_buffer s))"
    using sub z unfolding all_zero_def list_all_iff by blast
  then show ?thesis
    by (simp add: all_zero_ordered_rows s_def)
qed

text \<open>
  Claim C6. In a session, let \<open>update_plot\<close> copy the live window after the pushes \<open>xs\<close> and
  read the average window after the further pushes \<open>ys\<close>. A run that finds the live buffer
  all zero (as with no sample yet, and whenever the average buffer is all zero at that
  moment) computes no frequency and leaves the label as it is. Any other run writes
  \<open>freqs[m]\<close>, where \<open>m\<close> is a bin at which the column-wise mean of the rows of the average
  window is largest and every bin before \<open>m\<close> has a strictly smaller mean.
\<close>

theorem peak_frequency_first_maximum:
  assumes "configured s0" and "start_observation alloc fs_entry n_entry s0 = (Started, s1)"
  shows "let s = generate_data xs s1;
             s' = generate_data ys s
         in (all_zero (live_buffer s) \<longrightarrow> update_plot s s' = Waiting)
          \<and> (all_zero (avg_buffer s) \<longrightarrow> update_plot s s' = Waiting)
          \<and> (\<not> all_zero (live_buffer s) \<longrightarrow>
               (\<exists>m. update_plot s s'
                      = Drawn (ordered_rows (live_index s) (live_buffer s), Inr (freqs s' ! m))
                  \<and> m < nat (n s')
                  \<and> (let avg_spectrum
                           = mean_axis0 (nat (n s')) (ordered_rows (avg_index s') (avg_buffer s'))
                     in (\<forall>j < nat (n s'). avg_spectrum ! j \<le> avg_spectrum ! m)
                      \<and> (\<forall>j < m. avg_spectrum ! j < avg_spectrum ! m))))"
proof -
  define s where "s = generate_data xs s1"
  define s' where "s' = generate_data ys s"
  note st = started_state [OF assms]
  have run: "running s"
    using st by (simp add: s_def generate_data_running)
  have n': "0 < n s'"
    using st by (simp add: s'_def s_def generate_data_fixed)
  have fr: "length (freqs s') = nat (n s')"
    using started_freqs [OF assms] by (simp add: s'_def s_def generate_data_fixed)
  note peak = update_plot_peak [OF run n' fr]
  have empty: "all_zero (avg_buffer s) \<longrightarrow> update_plot s s' = Waiting"
    using empty_average_window_is_empty_live_window [OF assms, of xs] peak
    unfolding s_def by blast
  show ?thesis
    unfolding Let_def s_def [symmetric] s'_def [symmetric]
    using peak empty unfolding Let_def by blast
qed

text \<open>
  One sample with equal maxima at bins 3 and 7, in a session with \<open>Fs = 14\<close> and \<open>N = 8\<close>: the
  mean spectrum has its maxima there too, and the label shows the frequency of bin 3.
\<close>

lemma below_eight: "m < (8::nat) \<Longrightarrow> m = 0 \<or> m = 1 \<or> m = 2 \<or> m = 3 \<or> m = 4 \<or> m = 5 \<or> m = 6 \<or> m = 7"
  by arith

theorem peak_frequency_first_maximum_witness:
  "(let s = generate_data [[0, 1, 0, 5, 2, 0, 1, 5]] (snd (start_observation roomy (Some 14) (Some 8) init))
    in running s \<and> 0 < n s \<and> length (freqs s) = nat (n s)
     \<and> \<not> all_zero (live_buffer s)
     \<and> mean_axis0 (nat (n s)) (ordered_rows (avg_index s) (avg_buffer s))
         = [0, 1 / 1500, 0, 5 / 1500, 2 / 1500, 0, 1 / 1500, 5 / 1500]
     \<and> update_plot s s = Drawn (ordered_rows (live_index s) (live_buffer s), Inr 3))"
proof -
  let ?v = "[0, 1, 0, 5, 2, 0, 1, 5 :: real]"
  let ?z = "replicate 8 (0::real)"
  define s where "s = generate_data [?v] (snd (start_observation roomy (Some 14) (Some 8) init))"
  define sp where "sp = mean_axis0 (nat (n s)) (ordered_rows (avg_index s) (avg_buffer s))"
  have c: "configured init"
    by (simp add: configured_def init_def)
  have s_eq: "s = generate_data_step ?v
      (init\<lparr>fs := 14, n := 8, freqs := linspace 0 (real_of_int 14 / 2) (nat 8),
        running := True, live_steps := 500, save_steps := 3000, avg_steps := 1500,
        live_buffer := zeros 500 (nat 8), save_buffer := zeros 3000 (nat 8),
        avg_buffer := zeros 1500 (nat 8), live_index := 0, save_index := 0, avg_index := 0,
        threads := threads init @ [GenerateData, AutoSave]\<rparr>)"
    unfolding s_def by (simp add: start_observation_roomy [OF c])
  have run: "running s" and n8: "n s = 8" and fr: "freqs s = linspace 0 7 8"
    and ai: "avg_index s = 1" and ab: "avg_buffer s = (replicate 1500 ?z)[0 := ?v]"
    and lb: "live_buffer s = (replicate 500 ?z)[0 := ?v]"
    unfolding s_eq by (simp_all add: generate_data_step_def zeros_def)
  have len: "length (freqs s) = nat (n s)"
    by (simp add: fr n8 linspace_def)
  have "(replicate 1500 ?z)[0 := ?v] = ?v # replicate 1499 ?z"
    by (simp add: numeral_eq_Suc)
  then have rows: "ordered_rows (avg_index s) (avg_buffer s) = replicate 1499 ?z @ [?v]"
    by (simp add: ai ab ordered_rows_def)
  have sp_val: "sp = [0, 1 / 1500, 0, 5 / 1500, 2 / 1500, 0, 1 / 1500, 5 / 1500]"
    unfolding sp_def rows n8 by (simp add: mean_axis0_def upt_rec sum_list_replicate)
  have "?v \<in> set (live_buffer s)"
    unfolding lb by (simp add: numeral_eq_Suc)
  then have nz: "\<not> all_zero (live_buffer s)"
    unfolding all_zero_def list_all_iff by (rule_tac notI, drule_tac x = "?v" in bspec) simp_all
  have e: "start_observation roomy (Some 14) (Some 8) init
      = (Started, snd (start_observation roomy (Some 14) (Some 8) init))"
    by (simp add: start_observation_roomy [OF c])
  from peak_frequency_first_maximum [OF c e, of "[?v]" "[]"] n8 nz obtain m where
    m: "update_plot s s = Drawn (ordered_rows (live_index s) (live_buffer s), Inr (freqs s ! m))"
       "m < 8" "\<forall>j < 8. sp ! j \<le> sp ! m" "\<forall>j < m. sp ! j < sp ! m"
    unfolding Let_def generate_data.simps(1) s_def [symmetric] sp_def by auto
  have "sp ! 3 \<le> sp ! m"
    using m(3) by simp
  then have "m = 3 \<or> m = 7"
    using below_eight [OF m(2)] unfolding sp_val by auto
  moreover have "m \<noteq> 7"
  proof
    assume "m = 7"
    with m(4) have "sp ! 3 < sp ! 7" by simp
    then show False
      unfolding sp_val by simp
  qed
  ultimately have m3: "m = 3"
    by simp
  have "freqs s ! 3 = 3"
    by (simp add: fr linspace_def)
  then have "update_plot s s = Drawn (ordered_rows (live_index s) (live_buffer s), Inr 3)"
    using m(1) m3 by simp
  then show ?thesis
    unfolding Let_def s_def [symmetric]
    using run n8 len nz sp_val unfolding sp_def by simp
qed

section \<open>Alignment on the uniform time grid\<close>

lemma bisect_left_bounds:
  assumes "sorted a" "lo \<le> hi" "hi \<le> length a"
    and "\<forall>j < lo. a ! j < v" and "\<forall>j. hi \<le> j \<and> j < length a \<longrightarrow> v \<le> a ! j"
  shows "lo \<le> bisect_left a v lo hi \<and> bisect_left a v lo hi \<le> hi
       \<and> (\<forall>j < bisect_left a v lo hi. a ! j < v)
       \<and> (\<forall>j. bisect_left a v lo hi \<le> j \<and> j < length a \<longrightarrow> v \<le> a ! j)"
  using assms
proof (induction a v lo hi rule: bisect_left.induct)
  case (1 a v lo hi)
  show ?case
  proof (cases "lo < hi")
    case False
    then have "bisect_left a v lo hi = lo"
      by (subst bisect_left.simps) simp
    moreover have "lo = hi"
      using "1.prems"(2) False by simp
    ultimately show ?thesis
      using "1.prems"(4,5) by simp
  next
    case True
    define mid where "mid = lo + (hi - lo) div 2"
    have mid: "lo \<le> mid" "mid < hi"
      using True by (simp_all add: mid_def)
    show ?thesis
    proof (cases "a ! mid < v")
      case lt: True
      have below: "\<forall>j < mid + 1. a ! j < v"
      proof (intro allI impI)
        fix j assume "j < mid + 1"
        then have "j \<le> mid" by simp
        then have "a ! j \<le> a ! mid"
          using "1.prems"(1,3) mid(2) by (intro sorted_nth_mono) simp_all
        then show "a ! j < v" using lt by simp
      qed
      have le: "mid + 1 \<le> hi"
        using mid(2) by simp
      have ih: "mid + 1 \<le> bisect_left a v (mid + 1) hi \<and> bisect_left a v (mid + 1) hi \<le> hi
         \<and> (\<forall>j < bisect_left a v (mid + 1) hi. a ! j < v)
         \<and> (\<forall>j. bisect_left a v (mid + 1) hi \<le> j \<and> j < length a \<longrightarrow> v \<le> a ! j)"
        by (rule "1.IH"(1) [OF True mid_def lt "1.prems"(1) le "1.prems"(3) below "1.prems"(5)])
      have "bisect_left a v lo hi = bisect_left a v (mid + 1) hi"
        using True lt by (subst bisect_left.simps) (simp add: mid_def Let_def)
      then show ?thesis
        using ih mid(1) by simp
    next
      case ge: False
      have above: "\<forall>j. mid \<le> j \<and> j < length a \<longrightarrow> v \<le> a ! j"
      proof (intro allI impI)
        fix j assume j: "mid \<le> j \<and> j < length a"
        then have "a ! mid \<le> a ! j"
          using "1.prems"(1) by (intro sorted_nth_mono) simp_all
        then show "v \<le> a ! j" using ge by simp
      qed
      have hi': "mid \<le> length a"
        using mid(2) "1.prems"(3) by simp
      have ih: "lo \<le> bisect_left a v lo mid \<and> bisect_left a v lo mid \<le> mid
         \<and> (\<forall>j < bisect_left a v lo mid. a ! j < v)
         \<and> (\<forall>j. bisect_left a v lo mid \<le> j \<and> j < length a \<longrightarrow> v \<le> a ! j)"
        by (rule "1.IH"(2) [OF True mid_def ge "1.prems"(1) mid(1) hi' "1.prems"(4) above])
      have "bisect_left a v lo hi = bisect_left a v lo mid"
        using True ge by (subst bisect_left.simps) (simp add: mid_def Let_def)
      then show ?thesis
        using ih mid(2) by simp
    qed
  qed
qed

lemma searchsorted_first_at_or_after:
  assumes "sorted a"
  shows "searchsorted a v \<le> length a
       \<and> (\<forall>j < searchsorted a v. a ! j < v)
       \<and> (\<forall>j. searchsorted a v \<le> j \<and> j < length a \<longrightarrow> v \<le> a ! j)"
  using bisect_left_bounds [OF assms, of 0 "length a" v] by (simp add: searchsorted_def)

lemma linspace_length: "length (linspace start stop num) = num"
  by (simp add: linspace_def)

lemma linspace_nth:
  assumes "i < num"
  shows "linspace start stop num ! i = start + real i * ((stop - start) / real (num - 1))"
  using assms by (simp add: linspace_def)

lemma linspace_sorted:
  assumes "start \<le> stop"
  shows "sorted (linspace start stop num)"
proof -
  define c where "c = (stop - start) / real (num - 1)"
  have c: "0 \<le> c"
    using assms by (simp add: c_def)
  have "linspace start stop num ! i \<le> linspace start stop num ! j"
    if "i \<le> j" "j < num" for i j
  proof -
    have "real i * c \<le> real j * c"
      using that(1) c by (intro mult_right_mono) simp_all
    then show ?thesis
      using that by (simp add: linspace_nth c_def)
  qed
  then show ?thesis
    unfolding sorted_iff_nth_mono linspace_length by blast
qed

lemma align_length: "length (align full_times num_steps pairs aligned) = length aligned"
  by (induction pairs arbitrary: aligned) (auto simp: Let_def)

lemma align_cell:
  assumes "c < num_steps" "length aligned = num_steps"
  shows "align full_times num_steps pairs aligned ! c
     = (case filter (\<lambda>(t, d). searchsorted full_times t = c) pairs of
          [] \<Rightarrow> aligned ! c
        | p # ps \<Rightarrow> snd (last (p # ps)))"
  using assms
proof (induction pairs arbitrary: aligned)
  case Nil
  then show ?case by simp
next
  case (Cons p pairs)
  obtain t d where p: "p = (t, d)" by (cases p) auto
  define idx where "idx = searchsorted full_times t"
  define aligned' where "aligned' = (if idx < num_steps then aligned[idx := d] else aligned)"
  define hits where "hits = filter (\<lambda>(t, d). searchsorted full_times t = c) pairs"
  have len: "length aligned' = num_steps"
    using Cons.prems(2) by (simp add: aligned'_def)
  have ih: "align full_times num_steps pairs aligned' ! c
      = (case hits of [] \<Rightarrow> aligned' ! c | q # qs \<Rightarrow> snd (last (q # qs)))"
    unfolding hits_def by (rule Cons.IH [OF Cons.prems(1) len])
  have unf: "align full_times num_steps (p # pairs) aligned = align full_times num_steps pairs aligned'"
    by (simp add: p aligned'_def idx_def Let_def)
  show ?case
  proof (cases "idx = c")
    case True
    have cell: "aligned' ! c = d"
      using Cons.prems True by (simp add: aligned'_def)
    have flt: "filter (\<lambda>(t, d). searchsorted full_times t = c) (p # pairs) = p # hits"
      using True by (simp add: p idx_def hits_def)
    show ?thesis
      unfolding unf ih flt using cell by (cases hits) (simp_all add: p)
  next
    case False
    have cell: "aligned' ! c = aligned ! c"
      using False by (simp add: aligned'_def)
    have flt: "filter (\<lambda>(t, d). searchsorted full_times t = c) (p # pairs) = hits"
      using False by (simp add: p idx_def hits_def)
    show ?thesis
      unfolding unf ih flt cell by (rule refl)
  qed
qed

text \<open>
  Claim C5. In a running, unpaused session with data, \<open>update_plot\<close> draws a grid of 200 rows
  for the sorted time axis of 200 points from \<open>-10\<close> to \<open>0\<close>. The binary search gives, for a
  relative time \<open>t\<close>, the first index whose grid point is at or after \<open>t\<close> (200 when there
  is none). Cell \<open>c\<close> of the grid is the row of the last sample, in snapshot order, whose
  index is \<open>c\<close>, and the row of not-a-numbers when no sample has index \<open>c\<close>; a sample of
  index 200 is in no cell.
\<close>

theorem grid_alignment:
  assumes "running s" and "\<not> paused s" and "data s \<noteq> []"
  shows "let full_times = linspace (- 10) 0 200;
             rel_times = map (\<lambda>t. t - current_time) (timestamps s);
             snapshot = zip rel_times (map (map widen) (data s))
         in sorted full_times \<and> length full_times = 200
          \<and> full_times ! 0 = - 10 \<and> full_times ! 199 = 0
          \<and> (\<forall>t. searchsorted full_times t \<le> 200
                 \<and> (\<forall>j < searchsorted full_times t. full_times ! j < t)
                 \<and> (\<forall>j. searchsorted full_times t \<le> j \<and> j < 200 \<longrightarrow> t \<le> full_times ! j))
          \<and> (\<exists>aligned_data.
                 update_plot_tcp nan widen current_time s = Drawn aligned_data
               \<and> length aligned_data = 200
               \<and> (\<forall>c < 200. aligned_data ! c
                     = (case filter (\<lambda>(t, d). searchsorted full_times t = c) snapshot of
                          [] \<Rightarrow> replicate (nat (n s)) nan
                        | p # ps \<Rightarrow> snd (last (p # ps)))))"
proof -
  define full_times where "full_times = linspace (- 10) 0 200"
  define snapshot where
    "snapshot = zip (map (\<lambda>t. t - current_time) (timestamps s)) (map (map widen) (data s))"
  define blank where "blank = replicate 200 (replicate (nat (n s)) nan)"
  define aligned_data where "aligned_data = align full_times 200 snapshot blank"
  have srt: "sorted full_times"
    unfolding full_times_def by (rule linspace_sorted) simp
  have len: "length full_times = 200"
    by (simp add: full_times_def linspace_length)
  have ends: "full_times ! 0 = - 10" "full_times ! 199 = 0"
    by (simp_all add: full_times_def linspace_nth)
  have srch: "searchsorted full_times t \<le> 200
      \<and> (\<forall>j < searchsorted full_times t. full_times ! j < t)
      \<and> (\<forall>j. searchsorted full_times t \<le> j \<and> j < 200 \<longrightarrow> t \<le> full_times ! j)" for t
    using searchsorted_first_at_or_after [OF srt, of t] unfolding len by blast
  have drawn: "update_plot_tcp nan widen current_time s = Drawn aligned_data"
    using assms
    by (simp add: update_plot_tcp_def Let_def py_int_def aligned_data_def full_times_def
        snapshot_def blank_def)
  have alen: "length aligned_data = 200"
    by (simp add: aligned_data_def align_length blank_def)
  have cell: "aligned_data ! c
      = (case filter (\<lambda>(t, d). searchsorted full_times t = c) snapshot of
           [] \<Rightarrow> replicate (nat (n s)) nan
         | p # ps \<Rightarrow> snd (last (p # ps)))" if "c < 200" for c
  proof -
    have b: "length blank = 200" and bc: "blank ! c = replicate (nat (n s)) nan"
      using that by (simp_all add: blank_def)
    show ?thesis
      unfolding aligned_data_def align_cell [OF that b] bc by (rule refl)
  qed
  have ex: "\<exists>aligned_data.
      update_plot_tcp nan widen current_time s = Drawn aligned_data
      \<and> length aligned_data = 200
      \<and> (\<forall>c < 200. aligned_data ! c
            = (case filter (\<lambda>(t, d). searchsorted full_times t = c) snapshot of
                 [] \<Rightarrow> replicate (nat (n s)) nan
               | p # ps \<Rightarrow> snd (last (p # ps))))"
    using drawn alen cell by blast
  show ?thesis
    unfolding Let_def full_times_def [symmetric] snapshot_def [symmetric]
    using srt len ends srch ex by blast
qed

text \<open>
  Four samples at relative times \<open>-5\<close>, \<open>0\<close>, \<open>0\<close> and \<open>5\<close>: the first goes to cell 100, the
  third overwrites the second in cell 199, the fourth is dropped.
\<close>

lemma example_searchsorted:
  "searchsorted (linspace (- 10) 0 200) (- 5) = 100"
  "searchsorted (linspace (- 10) 0 200) 0 = 199"
  "searchsorted (linspace (- 10) 0 200) 5 = 200"
  by (simp_all add: searchsorted_def linspace_length linspace_nth bisect_left.simps)

theorem grid_alignment_witness:
  "(let s1 = snd (start_observation_tcp roomy (Some 8) (Some 1) (Some 9999) init_tcp);
        s = s1\<lparr>data := [[1], [2], [3], [4]], timestamps := [95, 100, 100, 105]\<rparr>
    in push_samples [(95, 95, [1]), (100, 100, [2]), (100, 100, [3]), (105, 105, [4])] s1 = Inr s
     \<and> running s \<and> \<not> paused s \<and> data s \<noteq> []
     \<and> (\<exists>g. update_plot_tcp None Some 100 s = Drawn g \<and> length g = 200
            \<and> g ! 0 = [None] \<and> g ! 100 = [Some 1] \<and> g ! 199 = [Some 3]))"
proof -
  define s1 where "s1 = snd (start_observation_tcp roomy (Some 8) (Some 1) (Some 9999) init_tcp)"
  define s where "s = s1\<lparr>data := [[1], [2], [3], [4]], timestamps := [95, 100, 100, 105]\<rparr>"
  have s1_eq: "s1 = init_tcp\<lparr>fs := 8, n := 1, port := 9999, freqs := linspace 0 4 1, running := True,
       threads := [ReceiveDataTcp, AutoSave]\<rparr>"
    by (simp add: s1_def example_start_tcp)
  have pushes: "push_samples [(95, 95, [1]), (100, 100, [2]), (100, 100, [3]), (105, 105, [4])] s1 = Inr s"
    unfolding s_def s1_eq by (simp add: push_sample_def init_tcp_def)
  have run: "running s" and np: "\<not> paused s" and ne: "data s \<noteq> []" and n1: "nat (n s) = 1"
    and ds: "data s = [[1], [2], [3], [4]]" and ts: "timestamps s = [95, 100, 100, 105]"
    unfolding s_def s1_eq by (simp_all add: init_tcp_def)
  from grid_alignment [OF run np ne, of 100 Some None] obtain g where
    g: "update_plot_tcp None Some 100 s = Drawn g" "length g = 200"
       "\<forall>c < 200. g ! c
          = (case filter (\<lambda>(t, d). searchsorted (linspace (- 10) 0 200) t = c)
                    (zip (map (\<lambda>t. t - 100) (timestamps s)) (map (map Some) (data s))) of
               [] \<Rightarrow> replicate (nat (n s)) None
             | p # ps \<Rightarrow> snd (last (p # ps)))"
    unfolding Let_def by blast
  have "g ! 0 = [None]" "g ! 100 = [Some 1]" "g ! 199 = [Some 3]"
    using g(3) by (simp_all add: ds ts n1 example_searchsorted)
  then show ?thesis
    unfolding Let_def s1_def [symmetric] s_def [symmetric]
    using pushes run np ne g(1,2) by blast
qed

section \<open>What the periodic save holds\<close>

text \<open>
  In plot\_inno2.py the saved array is the save window, 3000 rows for 60 seconds, next to a
  live window of 500 rows.
\<close>

lemma synth_save_outputs_rows:
  assumes "configured s0" and "start_observation alloc fs_entry n_entry s0 = (Started, s1)"
    and "\<not> all_zero (save_buffer (generate_data xs s1))"
  shows "\<exists>time_axis f m freq_axis.
           save_outputs base_name (generate_data xs s1)
             = [Fits (base_name @ ''.fits'') time_axis f m freq_axis
                  (drop (length xs) (replicate 3000 (replicate (nat (n s1)) 0) @ xs)),
                Png (base_name @ ''.png'')
                  (drop (length xs) (replicate 3000 (replicate (nat (n s1)) 0) @ xs))]"
proof -
  note st = started_state [OF assms(1,2)]
  have save0: "length (save_buffer s1) = save_steps s1" "save_index s1 < save_steps s1"
    using st by simp_all
  have "ordered_rows (save_index (generate_data xs s1)) (save_buffer (generate_data xs s1))
      = drop (length xs) (replicate 3000 (replicate (nat (n s1)) 0) @ xs)"
    using save_window_history [OF save0, of xs] st by (simp add: ordered_rows_def)
  then show ?thesis
    using assms(3) by (simp add: save_outputs_def Let_def)
qed

text \<open>
  Claim C7 fails in plot\_tcp.py, which has one window, cut to the last 10 seconds at every
  push, and saves that. Two samples pushed 20 seconds apart: the file written afterwards,
  titled a 60 second snapshot, holds the second sample only.
\<close>

theorem tcp_save_is_the_live_window:
  "(let s1 = snd (start_observation_tcp roomy (Some 8) (Some 1) (Some 9999) init_tcp);
        s = s1\<lparr>data := [[2]], timestamps := [20]\<rparr>
    in push_samples [(0, 0, [1]), (20, 20, [2])] s1 = Inr s
     \<and> save_outputs_tcp ''snap'' s
         = Inr [Fits ''snap.fits'' [0] 8 1 [0] [[2]], Png ''snap.png'' [[2]]])"
  unfolding Let_def example_start_tcp
  by (simp add: push_sample_def init_tcp_def save_outputs_tcp_def linspace_def Let_def)

section \<open>Validation at the start of a session\<close>









end
